theory Spec2Isabelle
  imports Complex_Main "HOL-Library.AList"
begin

section \<open>JavaScript values\<close>

text \<open>
  The values that flow through a task graph: context seeds, task results, thrown values,
  and the fields of a retry policy. A finite number is a rational (every IEEE double is
  one); \<open>NaN\<close> and the two infinities are numbers as well. \<open>Object kvs\<close> is an ordinary
  object with the own enumerable properties \<open>kvs\<close>. \<open>Exotic kvs e\<close> is an object with
  the own enumerable properties \<open>kvs\<close> whose conversion to a string throws \<open>e\<close>: an
  object without prototype (\<^verbatim>\<open>Object.create(null)\<close>, the default dependency bag of a
  task graph) or without a callable \<open>toString\<close>, for which \<open>e\<close> is a \<open>TypeError\<close>, or
  an object whose \<open>toString\<close> throws. \<open>ErrorObject m\<close> is an instance of \<open>Error\<close>
  with message \<open>m\<close>; \<open>NonErrorThrow v\<close> stands for the object built by
  \<^verbatim>\<open>new Error(`Non error throw: ${String(v)}`)\<close>. Functions are not values here: a
  context seed that is a function is a factory (\<open>SeedFactory\<close> below).
\<close>

datatype js_value =
    Undefined
  | Null
  | Boolean bool
  | Number rat
  | NaN
  | Infinity
  | NegInfinity
  | Str string
  | Symbol string
  | Object "(string \<times> js_value) list"
  | Exotic "(string \<times> js_value) list" js_value
  | ErrorObject string
  | NonErrorThrow js_value

text \<open>JavaScript truthiness, as tested by \<^verbatim>\<open>if (x)\<close>.\<close>

fun truthy :: "js_value \<Rightarrow> bool" where
  "truthy Undefined = False"
| "truthy Null = False"
| "truthy (Boolean b) = b"
| "truthy (Number n) = (n \<noteq> 0)"
| "truthy NaN = False"
| "truthy Infinity = True"
| "truthy NegInfinity = True"
| "truthy (Str s) = (s \<noteq> [])"
| "truthy (Symbol d) = True"
| "truthy (Object kvs) = True"
| "truthy (Exotic kvs e) = True"
| "truthy (ErrorObject m) = True"
| "truthy (NonErrorThrow v) = True"

text \<open>
  \<^verbatim>\<open>typeof v === "number"\<close>, \<^verbatim>\<open>v < 0\<close> for a number \<open>v\<close> (false for \<open>NaN\<close>),
  \<^verbatim>\<open>Number.isInteger(v)\<close>, and \<^verbatim>\<open>typeof v === "string"\<close> together with the string.
\<close>

fun is_number :: "js_value \<Rightarrow> bool" where
  "is_number (Number n) = True"
| "is_number NaN = True"
| "is_number Infinity = True"
| "is_number NegInfinity = True"
| "is_number v = False"

fun negative :: "js_value \<Rightarrow> bool" where
  "negative (Number n) = (n < 0)"
| "negative NegInfinity = True"
| "negative v = False"

fun isInteger :: "js_value \<Rightarrow> bool" where
  "isInteger (Number n) = (of_int \<lfloor>n\<rfloor> = n)"
| "isInteger v = False"

fun as_string :: "js_value \<Rightarrow> string option" where
  "as_string (Str s) = Some s"
| "as_string v = None"

text \<open>
  The conversion to a string that a template literal \<^verbatim>\<open>`${v}`\<close> performs: \<open>None\<close> when
  it yields a string, \<open>Some e\<close> when it throws \<open>e\<close>. It throws a \<open>TypeError\<close> for a
  symbol. (\<^verbatim>\<open>String(v)\<close> throws only where the template literal does.)
\<close>

fun string_conversion :: "js_value \<Rightarrow> js_value option" where
  "string_conversion (Symbol d) = Some (ErrorObject ''Cannot convert a Symbol value to a string'')"
| "string_conversion (Exotic kvs e) = Some e"
| "string_conversion v = None"

text \<open>The context object of a run: its keys and the value under each.\<close>

type_synonym context_value = "string \<rightharpoonup> js_value"

section \<open>Errors thrown by the library\<close>

datatype error =
    TaskAlreadyExists string
  | DependencyIdNotString
  | DependencyNotFound string string
  | SelfDependency
  | InvalidMaxRetries
  | InvalidRetryDelay
  | NoTasksAdded
  | CircularDependency string
  | TaskNotFound string
  | NoTasksToRun
  | UnexpectedEndOfRun
  | Thrown js_value

section \<open>Task\<close>

datatype status = Pending | Running | Completed | Failed

text \<open>
  A retry policy. In the options of a task its two fields are whatever values the caller
  wrote there. The policy a task keeps has passed \<open>_validateRetryPolicy\<close> (or is the
  default): its \<open>maxRetries\<close> is an integer, its \<open>retryDelayMs\<close> a number.
\<close>

record ('m, 'd) retry_policy =
  maxRetries :: 'm
  retryDelayMs :: 'd

text \<open>
  The options a task is created from. \<open>execute deps ctx k\<close> is what the \<open>k\<close>-th
  invocation of the execute operation settles with, given the dependency bag and the
  context snapshot: \<open>Inl v\<close> when it throws (or rejects with) \<open>v\<close>, \<open>Inr r\<close> when it
  returns \<open>r\<close>. An error handler settles with \<open>Inl v\<close> when it throws. The declared
  dependencies are the elements of the array, whatever they are.
\<close>

record task_options =
  taskId :: string
  execute :: "js_value \<Rightarrow> context_value \<Rightarrow> nat \<Rightarrow> js_value + js_value"
  dependencies :: "js_value list option"
  retryPolicy :: "(js_value, js_value) retry_policy option"
  errorHandler :: "(js_value \<Rightarrow> js_value \<Rightarrow> context_value \<Rightarrow> js_value + unit) option"

record task =
  options :: task_options
  task_dependencies :: "string list"
  task_retryPolicy :: "(int, js_value) retry_policy"
  task_status :: status

definition validateRetryPolicy :: "(js_value, js_value) retry_policy \<Rightarrow> error + unit" where
  "validateRetryPolicy p =
     (if \<not> is_number (maxRetries p) \<or> negative (maxRetries p) \<or> \<not> isInteger (maxRetries p)
      then Inl InvalidMaxRetries
      else if \<not> is_number (retryDelayMs p) \<or> negative (retryDelayMs p)
      then Inl InvalidRetryDelay
      else Inr ())"

text \<open>
  The constructor: the retry policy, when one is given, is validated and kept. A policy
  that is kept has an integer \<open>maxRetries\<close>, which \<open>integer_of\<close> reads.
\<close>

fun integer_of :: "js_value \<Rightarrow> int" where
  "integer_of (Number n) = \<lfloor>n\<rfloor>"
| "integer_of v = 0"

definition new_Task :: "task_options \<Rightarrow> error + task" where
  "new_Task opts =
     (let t = \<lparr>options = opts, task_dependencies = [],
               task_retryPolicy = \<lparr>maxRetries = 0, retryDelayMs = Number 0\<rparr>,
               task_status = Pending\<rparr>
      in case retryPolicy opts of
           None \<Rightarrow> Inr t
         | Some p \<Rightarrow>
             (case validateRetryPolicy p of
                Inl e \<Rightarrow> Inl e
              | Inr _ \<Rightarrow>
                  Inr (t\<lparr>task_retryPolicy :=
                          \<lparr>maxRetries = integer_of (maxRetries p),
                           retryDelayMs = retryDelayMs p\<rparr>\<rparr>)))"

definition addDependency :: "string \<Rightarrow> task \<Rightarrow> error + task" where
  "addDependency depId t =
     (if depId = taskId (options t) then Inl SelfDependency
      else Inr (t\<lparr>task_dependencies := task_dependencies t @ [depId]\<rparr>))"

section \<open>TaskGraphBuilder\<close>

text \<open>
  A context seed is a value, or a factory; a factory is represented by what calling and
  awaiting it yields.
\<close>

datatype context_seed = SeedValue js_value | SeedFactory "js_value + js_value"

text \<open>
  The task map is a JavaScript \<open>Map\<close>: an association list in insertion order.
  \<open>AList.update\<close> is \<open>Map.set\<close>: it replaces the value of a key in place and puts a
  new key last.
\<close>

type_synonym task_map = "(string \<times> task) list"

record builder =
  b_tasks :: task_map
  b_topologicalOrder :: "string list"
  b_dependencies :: js_value
  b_contextValueOrFactory :: context_seed

definition new_TaskGraphBuilder :: "js_value \<Rightarrow> context_seed \<Rightarrow> builder" where
  "new_TaskGraphBuilder deps seed =
     \<lparr>b_tasks = [], b_topologicalOrder = [], b_dependencies = deps,
      b_contextValueOrFactory = seed\<rparr>"

text \<open>
  The loop of \<open>addTask\<close> over the declared dependencies. The new task \<open>t\<close> is
  already in the map; \<open>task.addDependency\<close> mutates that same object, so each step
  writes the task back under its id. A throw leaves the map as it is at that moment.
\<close>

fun addDependencies :: "task \<Rightarrow> js_value list \<Rightarrow> task_map \<Rightarrow> (error + unit) \<times> task_map" where
  "addDependencies t [] ts = (Inr (), ts)"
| "addDependencies t (depId # rest) ts =
     (case as_string depId of
        None \<Rightarrow> (Inl DependencyIdNotString, ts)
      | Some d \<Rightarrow>
          (case map_of ts d of
             None \<Rightarrow> (Inl (DependencyNotFound d (taskId (options t))), ts)
           | Some dependentTask \<Rightarrow>
               (case addDependency d t of
                  Inl e \<Rightarrow> (Inl e, ts)
                | Inr t' \<Rightarrow> addDependencies t' rest (AList.update (taskId (options t)) t' ts))))"

text \<open>
  \<open>addTask\<close> returns what the call did (\<open>Inl\<close> the error thrown) together with the
  builder as the call leaves it: the task is put into the map before its dependencies
  are checked.
\<close>

definition addTask :: "task_options \<Rightarrow> builder \<Rightarrow> (error + unit) \<times> builder" where
  "addTask opts b =
     (if map_of (b_tasks b) (taskId opts) \<noteq> None
      then (Inl (TaskAlreadyExists (taskId opts)), b)
      else case new_Task opts of
             Inl e \<Rightarrow> (Inl e, b)
           | Inr t \<Rightarrow>
               (case addDependencies t
                       (case dependencies opts of None \<Rightarrow> [] | Some ds \<Rightarrow> ds)
                       (AList.update (taskId opts) t (b_tasks b)) of
                  (r, ts) \<Rightarrow> (r, b\<lparr>b_tasks := ts\<rparr>)))"

subsection \<open>Topological sort\<close>

record sort_state =
  visited :: "string set"
  temp :: "string set"
  order :: "string list"

text \<open>
  \<open>visit\<close> is the closure of \<open>_topologicalSort\<close>; \<open>visit_deps\<close> is its loop over the
  dependencies of a task. \<open>order\<close> is the builder's \<open>_topologicalOrder\<close> array.
\<close>

function visit :: "task_map \<Rightarrow> string \<Rightarrow> sort_state \<Rightarrow> error + sort_state"
  and visit_deps :: "task_map \<Rightarrow> string list \<Rightarrow> sort_state \<Rightarrow> error + sort_state" where
  "visit ts tid s =
     (if tid \<in> temp s then Inl (CircularDependency tid)
      else if tid \<notin> visited s then
        (case map_of ts tid of
           None \<Rightarrow> Inl (TaskNotFound tid)
         | Some t \<Rightarrow>
             (case visit_deps ts (task_dependencies t) (s\<lparr>temp := insert tid (temp s)\<rparr>) of
                Inl e \<Rightarrow> Inl e
              | Inr s' \<Rightarrow>
                  Inr (s'\<lparr>temp := temp s' - {tid},
                          visited := insert tid (visited s'),
                          order := order s' @ [tid]\<rparr>)))
      else Inr s)"
| "visit_deps ts [] s = Inr s"
| "visit_deps ts (depId # rest) s =
     (case visit ts depId s of
        Inl e \<Rightarrow> Inl e
      | Inr s' \<Rightarrow> visit_deps ts rest s')"
  by pat_completeness auto

lemma visit_temp_dom:
  "visit_visit_deps_dom (Inl (ts, tid, s)) \<Longrightarrow> visit ts tid s = Inr s' \<Longrightarrow> temp s' = temp s"
  "visit_visit_deps_dom (Inr (ts, ds, s)) \<Longrightarrow> visit_deps ts ds s = Inr s' \<Longrightarrow> temp s' = temp s"
proof (induction ts tid s and ts ds s arbitrary: s' and s' rule: visit_visit_deps.pinduct)
  case (1 ts tid s)
  show ?case
  proof (cases "tid \<in> temp s \<or> tid \<in> visited s")
    case True
    with "1.prems" "1.hyps" show ?thesis
      by (auto simp: visit.psimps split: if_splits)
  next
    case False
    with "1.prems" "1.hyps" obtain t s1 where
      t: "map_of ts tid = Some t" and
      s1: "visit_deps ts (task_dependencies t) (s\<lparr>temp := insert tid (temp s)\<rparr>) = Inr s1" and
      s': "s' = s1\<lparr>temp := temp s1 - {tid}, visited := insert tid (visited s1),
                    order := order s1 @ [tid]\<rparr>"
      by (auto simp: visit.psimps split: option.splits sum.splits)
    from "1.IH"[OF _ _ t s1] False have "temp s1 = insert tid (temp s)" by simp
    with s' False show ?thesis by auto
  qed
next
  case (2 ts s)
  then show ?case by (simp add: visit_deps.psimps)
next
  case (3 ts depId rest s)
  from "3.prems" "3.hyps" obtain s1 where
    s1: "visit ts depId s = Inr s1" and r: "visit_deps ts rest s1 = Inr s'"
    by (auto simp: visit_deps.psimps split: sum.splits)
  from "3.IH"(1)[OF s1] "3.IH"(2)[OF s1 r] show ?case by simp
qed

lemma visit_measure_step:
  assumes "tid \<notin> temp s" "map_of ts tid = Some t"
  shows "card (fst ` set ts - insert tid (temp s)) < card (fst ` set ts - temp s)"
proof -
  from assms have "tid \<in> fst ` set ts"
    by (metis map_of_SomeD fst_conv image_eqI)
  with assms have "fst ` set ts - insert tid (temp s) \<subset> fst ` set ts - temp s"
    by auto
  then show ?thesis
    by (intro psubset_card_mono) auto
qed

termination visit
  apply (relation "measures
    [\<lambda>x. case x of
        Inl (ts, tid, s) \<Rightarrow> card (fst ` set ts - temp s)
      | Inr (ts, ds, s) \<Rightarrow> card (fst ` set ts - temp s),
     \<lambda>x. case x of
        Inl (ts, tid, s) \<Rightarrow> 0
      | Inr (ts, ds, s) \<Rightarrow> Suc (length ds)]")
     apply simp
    apply (simp add: visit_measure_step)
   apply simp
  apply (simp add: visit_temp_dom(1))
  done

text \<open>
  The loop of \<open>_topologicalSort\<close> over the keys of the task map, and the method itself:
  it starts from empty \<open>visited\<close> and \<open>temp\<close> sets and pushes onto the builder's
  \<open>_topologicalOrder\<close>. The result is the builder after the sort.
\<close>

fun sort_loop :: "task_map \<Rightarrow> string list \<Rightarrow> sort_state \<Rightarrow> error + sort_state" where
  "sort_loop ts [] s = Inr s"
| "sort_loop ts (tid # rest) s =
     (if tid \<notin> visited s then
        (case visit ts tid s of
           Inl e \<Rightarrow> Inl e
         | Inr s' \<Rightarrow> sort_loop ts rest s')
      else sort_loop ts rest s)"

definition topologicalSort :: "builder \<Rightarrow> error + builder" where
  "topologicalSort b =
     (case sort_loop (b_tasks b) (map fst (b_tasks b))
             \<lparr>visited = {}, temp = {}, order = b_topologicalOrder b\<rparr> of
        Inl e \<Rightarrow> Inl e
      | Inr s \<Rightarrow> Inr (b\<lparr>b_topologicalOrder := order s\<rparr>))"

section \<open>Context\<close>

text \<open>
  \<open>object\<close> is the managed object. \<open>updateQueue\<close> is the promise chain of \<open>update\<close>:
  the merges whose continuation has been chained and has not run yet, oldest first.
\<close>

record execution_context =
  object :: context_value
  updateQueue :: "context_value list"

text \<open>
  The own enumerable properties copied by \<^verbatim>\<open>{ ...v }\<close>: those of an object, the indexed
  characters of a string, none for any other value.
\<close>

fun decimal :: "nat \<Rightarrow> string" where
  "decimal n =
     (if n < 10 then [char_of (48 + n)]
      else decimal (n div 10) @ [char_of (48 + n mod 10)])"

fun spread :: "js_value \<Rightarrow> (string \<times> js_value) list" where
  "spread (Object kvs) = kvs"
| "spread (Exotic kvs e) = kvs"
| "spread (Str s) = map (\<lambda>i. (decimal i, Str [s ! i])) [0..<length s]"
| "spread v = []"

definition Context_reset :: "js_value \<Rightarrow> execution_context \<Rightarrow> execution_context" where
  "Context_reset initialObject c =
     (if truthy initialObject
      then c\<lparr>object := [''initial'' \<mapsto> Object (spread initialObject)]\<rparr>
      else c\<lparr>object := [''initial'' \<mapsto> Undefined]\<rparr>)"

definition new_Context :: "js_value \<Rightarrow> execution_context" where
  "new_Context initialObject =
     Context_reset initialObject \<lparr>object = Map.empty, updateQueue = []\<rparr>"

definition Context_value :: "execution_context \<Rightarrow> context_value" where
  "Context_value c = object c"

text \<open>
  \<open>update\<close> chains one more continuation onto the queue. \<open>Context_settle\<close> is the
  event loop running the oldest continuation that is still pending: it merges into the
  object as it is at that moment. \<open>Context_await\<close> is awaiting the promise \<open>update\<close>
  returned when it is the newest one: every pending continuation has run.
\<close>

definition Context_update :: "context_value \<Rightarrow> execution_context \<Rightarrow> execution_context" where
  "Context_update updateValue c = c\<lparr>updateQueue := updateQueue c @ [updateValue]\<rparr>"

definition Context_settle :: "execution_context \<Rightarrow> execution_context" where
  "Context_settle c =
     (case updateQueue c of
        [] \<Rightarrow> c
      | updateValue # rest \<Rightarrow> c\<lparr>object := object c ++ updateValue, updateQueue := rest\<rparr>)"

fun settle_n :: "nat \<Rightarrow> execution_context \<Rightarrow> execution_context" where
  "settle_n 0 c = c"
| "settle_n (Suc n) c = settle_n n (Context_settle c)"

definition Context_await :: "execution_context \<Rightarrow> execution_context" where
  "Context_await c = settle_n (length (updateQueue c)) c"

text \<open>
  Callers of one context, interleaved with the event loop: \<open>Issue u\<close> is a caller
  invoking \<open>update(u)\<close>, \<open>Tick\<close> is the event loop running one pending continuation.
\<close>

datatype context_event = Issue context_value | Tick

fun context_step :: "execution_context \<Rightarrow> context_event \<Rightarrow> execution_context" where
  "context_step c (Issue u) = Context_update u c"
| "context_step c Tick = Context_settle c"

fun issued :: "context_event list \<Rightarrow> context_value list" where
  "issued [] = []"
| "issued (Issue u # evs) = u # issued evs"
| "issued (Tick # evs) = issued evs"

section \<open>Task.run\<close>

text \<open>
  What \<open>Task.run\<close> does is recorded as a trace: the writes to the status, the
  invocations of the execute operation (with the attempt number), the sleeps, the call of
  the error handler and the lines written to \<open>console.error\<close>.
\<close>

datatype log_line = FailedAfterAttempts | Retrying | ErrorInTask | ErrorInHandler

datatype event =
    SetStatus status
  | Execute nat
  | Sleep js_value
  | CallErrorHandler js_value
  | ConsoleError log_line

fun toError :: "js_value \<Rightarrow> js_value" where
  "toError (ErrorObject m) = ErrorObject m"
| "toError (NonErrorThrow v) = NonErrorThrow v"
| "toError v = NonErrorThrow v"

text \<open>
  The inner \<open>try\<close> of the last failure, entered with the error made from the thrown
  value: the error handler when there is one, else a log line. What the handler throws is
  caught and logged; building that log line converts the caught value to a string, in the
  \<open>catch\<close> block, so a failing conversion leaves the block as a throw (\<open>Inl\<close>).
\<close>

definition handle_error :: "task \<Rightarrow> js_value \<Rightarrow> js_value \<Rightarrow> context_value
    \<Rightarrow> (js_value + unit) \<times> event list" where
  "handle_error t err deps ctx =
     (case errorHandler (options t) of
        Some h \<Rightarrow>
          (case h err deps ctx of
             Inl error2 \<Rightarrow>
               (case string_conversion error2 of
                  Some e \<Rightarrow> (Inl e, [CallErrorHandler err])
                | None \<Rightarrow> (Inr (), [CallErrorHandler err, ConsoleError ErrorInHandler]))
           | Inr _ \<Rightarrow> (Inr (), [CallErrorHandler err]))
      | None \<Rightarrow> (Inr (), [ConsoleError ErrorInTask]))"

text \<open>
  The \<open>for\<close> loop of \<open>Task.run\<close>, from attempt \<open>attempt\<close> on. It returns what the promise
  settles with (\<open>Inl\<close> what it rejects with), the task as the run leaves it and the trace.
  In the \<open>catch\<close> block the first statement on either path builds a log line from the
  thrown value with a template literal; when that conversion throws, the throw leaves
  \<open>run\<close> at once, with the status still \<open>running\<close>.
\<close>

function run_from :: "nat \<Rightarrow> js_value \<Rightarrow> context_value \<Rightarrow> task \<Rightarrow> (error + js_value) \<times> task \<times> event list" where
  "run_from attempt deps ctx t =
     (if int attempt < maxRetries (task_retryPolicy t) + 1 then
        (case execute (options t) deps ctx attempt of
           Inr result \<Rightarrow>
             (Inr result, t\<lparr>task_status := Completed\<rparr>,
              [SetStatus Running, Execute attempt, SetStatus Completed])
         | Inl err \<Rightarrow>
             (case string_conversion err of
                Some e \<Rightarrow>
                  (Inl (Thrown e), t\<lparr>task_status := Running\<rparr>,
                   [SetStatus Running, Execute attempt])
              | None \<Rightarrow>
                  if int attempt = maxRetries (task_retryPolicy t) then
                    (case handle_error t (toError err) deps ctx of
                       (Inl e, evs) \<Rightarrow>
                         (Inl (Thrown e), t\<lparr>task_status := Running\<rparr>,
                          [SetStatus Running, Execute attempt, ConsoleError FailedAfterAttempts]
                            @ evs)
                     | (Inr _, evs) \<Rightarrow>
                         (Inl (Thrown (toError err)), t\<lparr>task_status := Failed\<rparr>,
                          [SetStatus Running, Execute attempt, ConsoleError FailedAfterAttempts]
                            @ evs @ [SetStatus Failed]))
                  else
                    (case run_from (Suc attempt) deps ctx (t\<lparr>task_status := Running\<rparr>) of
                       (r, t', evs) \<Rightarrow>
                         (r, t',
                          [SetStatus Running, Execute attempt, ConsoleError Retrying,
                           Sleep (retryDelayMs (task_retryPolicy t))] @ evs))))
      else (Inl UnexpectedEndOfRun, t, []))"
  by pat_completeness auto
termination
  by (relation "measure (\<lambda>(attempt, deps, ctx, t).
        nat (maxRetries (task_retryPolicy t) + 1 - int attempt))") auto

definition Task_run :: "js_value \<Rightarrow> context_value \<Rightarrow> task \<Rightarrow> (error + js_value) \<times> task \<times> event list" where
  "Task_run deps ctx t = run_from 0 deps ctx t"

text \<open>
  The part of \<open>Task.run\<close> that runs at the call, before its first \<open>await\<close>: the status
  is written \<open>running\<close> and the execute operation is invoked.
\<close>

definition Task_start :: "task \<Rightarrow> task" where
  "Task_start t =
     (if 0 < maxRetries (task_retryPolicy t) + 1 then t\<lparr>task_status := Running\<rparr> else t)"

section \<open>TaskGraphRunner\<close>

record runner =
  r_dependencies :: js_value
  r_contextValueOrFactory :: context_seed
  r_topologicalOrder :: "string list"
  r_tasks :: task_map
  r_context :: execution_context

text \<open>
  \<open>build\<close>: the runner shares the sorted builder's order and task map and owns a fresh
  context.
\<close>

definition build :: "builder \<Rightarrow> error + runner" where
  "build b =
     (if length (b_tasks b) = 0 then Inl NoTasksAdded
      else case topologicalSort b of
             Inl e \<Rightarrow> Inl e
           | Inr b' \<Rightarrow>
               Inr \<lparr>r_dependencies = b_dependencies b',
                    r_contextValueOrFactory = b_contextValueOrFactory b',
                    r_topologicalOrder = b_topologicalOrder b',
                    r_tasks = b_tasks b',
                    r_context = new_Context Undefined\<rparr>)"

text \<open>
  The local state of one call of \<open>run\<close>, and where each asynchronous function it has
  started stands. A JavaScript \<open>Set\<close> is a list without repetition in insertion order
  (\<open>set_add\<close> is \<open>Set.add\<close>).

  \<open>running\<close> maps a task that was started to the progress of its \<open>runTask\<close> call:
  \<open>Started snapshot\<close>, it awaits \<open>task.run\<close>, which was called with the context value
  read at that moment; \<open>Returned result\<close> and \<open>Rejected\<close>, \<open>task.run\<close> has settled
  and the continuation of \<open>runTask\<close> has not run yet; \<open>Updating n\<close>, it has called
  \<open>context.update\<close> and awaits the promise that call returned, which is fulfilled once
  \<open>n\<close> merges have been applied.

  \<open>loop\<close> is the \<open>while\<close> loop: suspended in \<^verbatim>\<open>await Promise.race(...)\<close> with no
  running promise settled yet (\<open>Awaiting\<close>), with one settled and its own continuation
  pending (\<open>Woken\<close>), or left (\<open>Exited\<close>).

  \<open>applied\<close> counts the merges applied during the run and \<open>events\<close> records, per task,
  the trace of its \<open>Task.run\<close>, appended when that call settles; the program has no such
  variables, they are what promise resolution and the properties below speak about.
\<close>

definition set_add :: "'a \<Rightarrow> 'a list \<Rightarrow> 'a list" where
  "set_add x xs = (if x \<in> set xs then xs else xs @ [x])"

definition new_Set :: "'a list \<Rightarrow> 'a list" where
  "new_Set xs = foldl (\<lambda>acc x. set_add x acc) [] xs"

datatype progress =
    Started context_value
  | Returned js_value
  | Rejected
  | Updating nat

datatype loop_status = Awaiting | Woken | Exited

record run_state =
  rs_tasks :: task_map
  rs_context :: execution_context
  completed :: "string list"
  running :: "(string \<times> progress) list"
  readyTasks :: "string list"
  loop :: loop_status
  applied :: nat
  events :: "(string \<times> event) list"

text \<open>Lines 237 to 243 of \<open>run\<close>: the value that is handed to \<open>Context.reset\<close>.\<close>

definition seed_value :: "context_seed \<Rightarrow> error + js_value" where
  "seed_value seed =
     (case seed of
        SeedValue v \<Rightarrow> Inr (if truthy v then v else Undefined)
      | SeedFactory settled \<Rightarrow>
          (case settled of Inl e \<Rightarrow> Inl (Thrown e) | Inr v \<Rightarrow> Inr v))"

text \<open>The filter that computes the tasks without dependencies.\<close>

fun no_dependencies :: "task_map \<Rightarrow> string list \<Rightarrow> error + string list" where
  "no_dependencies ts [] = Inr []"
| "no_dependencies ts (tid # rest) =
     (case map_of ts tid of
        None \<Rightarrow> Inl (TaskNotFound tid)
      | Some t \<Rightarrow>
          (case no_dependencies ts rest of
             Inl e \<Rightarrow> Inl e
           | Inr r \<Rightarrow> Inr (if length (task_dependencies t) = 0 then tid # r else r)))"

text \<open>The readiness test of a task, and the scan over all tasks in the \<open>finally\<close> block.\<close>

definition canRun :: "run_state \<Rightarrow> task \<Rightarrow> bool" where
  "canRun s t =
     list_all (\<lambda>depId.
        case map_of (rs_tasks s) depId of
          None \<Rightarrow> False
        | Some depTask \<Rightarrow> depId \<in> set (completed s) \<and> task_status depTask = Completed)
       (task_dependencies t)"

fun rescan_loop :: "task_map \<Rightarrow> run_state \<Rightarrow> run_state" where
  "rescan_loop [] s = s"
| "rescan_loop ((tid, t) # rest) s =
     rescan_loop rest
       (if tid \<notin> set (completed s) \<and> tid \<notin> fst ` set (running s) \<and> canRun s t
        then s\<lparr>readyTasks := set_add tid (readyTasks s)\<rparr>
        else s)"

text \<open>
  \<open>runTask\<close> is an asynchronous function: it runs in pieces, each from one \<open>await\<close> to
  the next, and between two pieces the event loop may run a piece of anything else that
  is pending. Its pieces are the following.

  \<open>start_tasks\<close>, in the \<open>for\<close> loop that starts every ready task: the task leaves the
  ready set, \<open>runTask\<close> calls \<open>task.run\<close> with the context value read at that moment,
  which writes the status and invokes the execute operation, and the promise enters
  \<open>running\<close>.

  \<open>settle_run\<close>: \<open>task.run\<close> settles. Nothing else reads or writes what \<open>task.run\<close>
  works on between its call and this moment (the status of a task is read only once the
  task is in \<open>completed\<close>), so its attempts are evaluated here as one step, on the
  snapshot it was called with.

  \<open>call_update\<close>: \<open>runTask\<close> resumes with the result and calls \<open>context.update\<close>,
  which chains the merge; the merge itself is applied later, by \<open>apply_merge\<close>.

  \<open>finish_task\<close>: \<open>runTask\<close> resumes after the update (or in the \<open>catch\<close> block
  after a rejection), adds the task to \<open>completed\<close> and runs the \<open>finally\<close> block;
  its promise is fulfilled, which settles the race the loop awaits.
\<close>

fun start_tasks :: "string list \<Rightarrow> run_state \<Rightarrow> error + run_state" where
  "start_tasks [] s = Inr s"
| "start_tasks (tid # rest) s =
     (case map_of (rs_tasks s) tid of
        None \<Rightarrow> Inl (TaskNotFound tid)
      | Some t \<Rightarrow>
          start_tasks rest
            (s\<lparr>readyTasks := removeAll tid (readyTasks s),
               rs_tasks := AList.update tid (Task_start t) (rs_tasks s),
               running := AList.update tid (Started (Context_value (rs_context s))) (running s)\<rparr>))"

definition settle_run :: "js_value \<Rightarrow> string \<Rightarrow> context_value \<Rightarrow> run_state \<Rightarrow> error + run_state" where
  "settle_run deps tid snapshot s =
     (case map_of (rs_tasks s) tid of
        None \<Rightarrow> Inl (TaskNotFound tid)
      | Some t \<Rightarrow>
          (case Task_run deps snapshot t of
             (res, t', evs) \<Rightarrow>
               Inr (s\<lparr>rs_tasks := AList.update tid t' (rs_tasks s),
                      events := events s @ map (Pair tid) evs,
                      running :=
                        AList.update tid
                          (case res of Inr result \<Rightarrow> Returned result | Inl e \<Rightarrow> Rejected)
                          (running s)\<rparr>)))"

definition call_update :: "string \<Rightarrow> js_value \<Rightarrow> run_state \<Rightarrow> run_state" where
  "call_update tid result s =
     s\<lparr>rs_context := Context_update [tid \<mapsto> result] (rs_context s),
       running :=
         AList.update tid
           (Updating (applied s + length (updateQueue (rs_context s)) + 1)) (running s)\<rparr>"

definition apply_merge :: "run_state \<Rightarrow> run_state" where
  "apply_merge s =
     (if length (updateQueue (rs_context s)) = 0 then s
      else s\<lparr>rs_context := Context_settle (rs_context s), applied := applied s + 1\<rparr>)"

definition finish_task :: "string \<Rightarrow> run_state \<Rightarrow> run_state" where
  "finish_task tid s =
     (let s1 = s\<lparr>completed := set_add tid (completed s)\<rparr>;
          s2 = s1\<lparr>running := AList.delete tid (running s1)\<rparr>;
          s3 = rescan_loop (rs_tasks s2) s2
      in s3\<lparr>loop := (case loop s3 of Awaiting \<Rightarrow> Woken | l \<Rightarrow> l)\<rparr>)"

text \<open>
  One iteration of the \<open>while\<close> loop, from its test to the next \<open>await\<close> or to the
  exit.
\<close>

definition loop_iteration :: "run_state \<Rightarrow> error + run_state" where
  "loop_iteration s =
     (if length (completed s) < length (rs_tasks s) then
        (case start_tasks (readyTasks s) s of
           Inl e \<Rightarrow> Inl e
         | Inr s1 \<Rightarrow>
             if length (running s1) > 0 then Inr (s1\<lparr>loop := Awaiting\<rparr>)
             else Inr (s1\<lparr>loop := Exited\<rparr>))
      else Inr (s\<lparr>loop := Exited\<rparr>))"

text \<open>
  What the event loop runs next is not decided by the program. An action names a piece:
  the continuation of the \<open>while\<close> loop, the oldest pending merge, or the next piece of
  the \<open>runTask\<close> call at a position of \<open>running\<close> (taken modulo its size). An action
  whose piece is not pending does nothing: the loop before a running promise has
  settled, a merge when none is chained, a \<open>runTask\<close> call whose update promise is not
  fulfilled yet.
\<close>

datatype action = ResumeLoop | ApplyMerge | Advance nat

definition advance :: "js_value \<Rightarrow> nat \<Rightarrow> run_state \<Rightarrow> error + run_state" where
  "advance deps i s =
     (if length (running s) = 0 then Inr s
      else case running s ! (i mod length (running s)) of
             (tid, p) \<Rightarrow>
               (case p of
                  Started snapshot \<Rightarrow> settle_run deps tid snapshot s
                | Returned result \<Rightarrow> Inr (call_update tid result s)
                | Rejected \<Rightarrow> Inr (finish_task tid s)
                | Updating n \<Rightarrow> if n \<le> applied s then Inr (finish_task tid s) else Inr s))"

fun step :: "js_value \<Rightarrow> action \<Rightarrow> run_state \<Rightarrow> error + run_state" where
  "step deps ResumeLoop s = (if loop s = Woken then loop_iteration s else Inr s)"
| "step deps ApplyMerge s = Inr (apply_merge s)"
| "step deps (Advance i) s = advance deps i s"

text \<open>
  A schedule lists the actions in the order the event loop takes them. When it is used
  up the event loop goes on in a fixed order: the loop's continuation when it is pending,
  else the oldest merge, else the first running task.
\<close>

type_synonym schedule = "action list"

definition next_action :: "run_state \<Rightarrow> action" where
  "next_action s =
     (if loop s = Woken then ResumeLoop
      else if length (updateQueue (rs_context s)) > 0 then ApplyMerge
      else Advance 0)"

partial_function (option) run_steps :: "js_value \<Rightarrow> schedule \<Rightarrow> run_state \<Rightarrow> (error + run_state) option" where
  "run_steps deps sched s =
     (if loop s = Exited then Some (Inr s)
      else case step deps (case sched of [] \<Rightarrow> next_action s | a # rest \<Rightarrow> a) s of
             Inl e \<Rightarrow> Some (Inl e)
           | Inr s' \<Rightarrow> run_steps deps (tl sched) s')"

declare run_steps.simps [code]

text \<open>
  \<open>run\<close>: the part before the loop, the first iteration of the loop, which follows it
  without an \<open>await\<close> in between once the seed is there, and then whatever the event
  loop runs until the loop is left. \<open>None\<close> would be a call that never settles,
  \<open>Some (Inl e)\<close> is a rejection, \<open>Some (Inr s)\<close> resolves with
  \<open>Context_value (rs_context s)\<close>.
\<close>

definition run :: "schedule \<Rightarrow> runner \<Rightarrow> (error + run_state) option" where
  "run sched r =
     (if length (r_topologicalOrder r) = 0 then Some (Inl NoTasksToRun)
      else case seed_value (r_contextValueOrFactory r) of
             Inl e \<Rightarrow> Some (Inl e)
           | Inr v \<Rightarrow>
               (case no_dependencies (r_tasks r) (r_topologicalOrder r) of
                  Inl e \<Rightarrow> Some (Inl e)
                | Inr ready \<Rightarrow>
                    (case loop_iteration
                            \<lparr>rs_tasks = r_tasks r,
                             rs_context = Context_reset v (r_context r),
                             completed = [], running = [], readyTasks = new_Set ready,
                             loop = Woken, applied = 0, events = []\<rparr> of
                       Inl e \<Rightarrow> Some (Inl e)
                     | Inr s \<Rightarrow> run_steps (r_dependencies r) sched s)))"

section \<open>Vocabulary of the properties\<close>

text \<open>
  The definitions of this section are not part of the program: they are the notions the
  properties below are stated with.
\<close>

text \<open>The dependencies a call of \<open>addTask\<close> declares (\<open>options.dependencies ?? []\<close>).\<close>

definition declared :: "task_options \<Rightarrow> js_value list" where
  "declared opts = (case dependencies opts of None \<Rightarrow> [] | Some ds \<Rightarrow> ds)"

text \<open>
  A declared dependency at which the loop of \<open>addTask\<close> throws, for a task \<open>tid\<close> and
  the ids registered before the call: it is not a string, or it is the task's own id,
  or it is not registered; and the error thrown at it. \<open>names\<close> are the strings of a
  list of values.
\<close>

definition bad_dependency :: "string \<Rightarrow> string set \<Rightarrow> js_value \<Rightarrow> bool" where
  "bad_dependency tid registered d =
     (case as_string d of None \<Rightarrow> True | Some n \<Rightarrow> n = tid \<or> n \<notin> registered)"

definition dependency_error :: "string \<Rightarrow> js_value \<Rightarrow> error" where
  "dependency_error tid d =
     (case as_string d of
        None \<Rightarrow> DependencyIdNotString
      | Some n \<Rightarrow> if n = tid then SelfDependency else DependencyNotFound n tid)"

definition names :: "js_value list \<Rightarrow> string list" where
  "names ds = List.map_filter as_string ds"

text \<open>
  A chain \<open>builder.addTask(o1).addTask(o2)...\<close>: the first call that throws ends it.
\<close>

fun addTasks :: "task_options list \<Rightarrow> builder \<Rightarrow> error + builder" where
  "addTasks [] b = Inr b"
| "addTasks (opts # rest) b =
     (case addTask opts b of
        (Inl e, b') \<Rightarrow> Inl e
      | (Inr u, b') \<Rightarrow> addTasks rest b')"

text \<open>
  The dependency graph of a task map: the dependencies of a task id, the edge relation
  from a task to each of its dependencies, and the task maps whose dependencies all name
  a task of the map.
\<close>

definition deps_of :: "task_map \<Rightarrow> string \<Rightarrow> string list" where
  "deps_of ts tid = (case map_of ts tid of None \<Rightarrow> [] | Some t \<Rightarrow> task_dependencies t)"

definition dep_rel :: "task_map \<Rightarrow> (string \<times> string) set" where
  "dep_rel ts = {(tid, depId). depId \<in> set (deps_of ts tid)}"

definition closed :: "task_map \<Rightarrow> bool" where
  "closed ts = (\<forall>tid. set (deps_of ts tid) \<subseteq> fst ` set ts)"

text \<open>
  A segment of the order is topological when every element occurs once and after all of
  its dependencies; \<open>sort_inv\<close> is the invariant of the sort for the segment pushed so
  far. \<open>before xs a b\<close>: \<open>a\<close> stands at a smaller index of \<open>xs\<close> than \<open>b\<close>.
\<close>

definition topo :: "task_map \<Rightarrow> string list \<Rightarrow> bool" where
  "topo ts seg = (\<forall>xs tid ys. seg = xs @ tid # ys \<longrightarrow>
      tid \<notin> set xs \<and> set (deps_of ts tid) \<subseteq> set xs)"

definition sort_inv :: "task_map \<Rightarrow> string list \<Rightarrow> sort_state \<Rightarrow> bool" where
  "sort_inv ts pre s = (\<exists>seg. order s = pre @ seg \<and> set seg = visited s \<and> topo ts seg
      \<and> temp s \<inter> visited s = {} \<and> visited s \<subseteq> fst ` set ts)"

definition before :: "'a list \<Rightarrow> 'a \<Rightarrow> 'a \<Rightarrow> bool" where
  "before xs a b = (\<exists>i j. i < j \<and> j < length xs \<and> xs ! i = a \<and> xs ! j = b)"

text \<open>
  Task maps filled in dependency-first order: every task was put in after all the tasks
  it depends on, under an id not used before.
\<close>

inductive insertion_ordered :: "task_map \<Rightarrow> bool" where
  empty: "insertion_ordered []"
| snoc: "insertion_ordered ts \<Longrightarrow> tid \<notin> fst ` set ts \<Longrightarrow>
         set (task_dependencies t) \<subseteq> fst ` set ts \<Longrightarrow> insertion_ordered (ts @ [(tid, t)])"

text \<open>
  Example tasks: one whose execute operation returns a value, one whose execute operation
  always throws; both without retry policy and error handler, with dependencies given by
  name. And a builder without tasks.
\<close>

definition returning :: "string \<Rightarrow> string list \<Rightarrow> js_value \<Rightarrow> task_options" where
  "returning tid deps v =
     \<lparr>taskId = tid, execute = (\<lambda>bag ctx k. Inr v), dependencies = Some (map Str deps),
      retryPolicy = None, errorHandler = None\<rparr>"

definition throwing :: "string \<Rightarrow> string list \<Rightarrow> js_value \<Rightarrow> task_options" where
  "throwing tid deps v =
     \<lparr>taskId = tid, execute = (\<lambda>bag ctx k. Inl v), dependencies = Some (map Str deps),
      retryPolicy = None, errorHandler = None\<rparr>"

definition empty_builder :: builder where
  "empty_builder = new_TaskGraphBuilder (Object []) (SeedValue Undefined)"

text \<open>The task map of a builder after adding \<open>a\<close> and then \<open>b\<close>, which depends on \<open>a\<close>.\<close>

definition chain_builder :: builder where
  "chain_builder =
     \<lparr>b_tasks =
        [(''a'', \<lparr>options = returning ''a'' [] Null, task_dependencies = [],
                  task_retryPolicy = \<lparr>maxRetries = 0, retryDelayMs = Number 0\<rparr>,
                  task_status = Pending\<rparr>),
         (''b'', \<lparr>options = returning ''b'' [''a''] Null, task_dependencies = [''a''],
                  task_retryPolicy = \<lparr>maxRetries = 0, retryDelayMs = Number 0\<rparr>,
                  task_status = Pending\<rparr>)],
      b_topologicalOrder = [], b_dependencies = Object [],
      b_contextValueOrFactory = SeedValue Undefined\<rparr>"

text \<open>
  What a trace of \<open>Task.run\<close> shows: the attempt numbers of the invocations of the
  execute operation, the sleeps, the statuses written and the errors the error handler
  was called with, each in order.
\<close>

fun executions :: "event list \<Rightarrow> nat list" where
  "executions [] = []"
| "executions (Execute k # evs) = k # executions evs"
| "executions (ev # evs) = executions evs"

fun sleeps :: "event list \<Rightarrow> js_value list" where
  "sleeps [] = []"
| "sleeps (Sleep d # evs) = d # sleeps evs"
| "sleeps (ev # evs) = sleeps evs"

fun statuses :: "event list \<Rightarrow> status list" where
  "statuses [] = []"
| "statuses (SetStatus st # evs) = st # statuses evs"
| "statuses (ev # evs) = statuses evs"

fun handler_calls :: "event list \<Rightarrow> js_value list" where
  "handler_calls [] = []"
| "handler_calls (CallErrorHandler e # evs) = e # handler_calls evs"
| "handler_calls (ev # evs) = handler_calls evs"

text \<open>
  Attempt \<open>k\<close> is made in a call of \<open>Task.run\<close> on the given input: the retry
  policy allows it and every attempt before it throws. The values such a call converts
  to a string are printable: what the execute operation throws at an attempt that is
  made, and what the error handler throws when it is called with the error of the last
  attempt.
\<close>

definition attempted :: "task \<Rightarrow> js_value \<Rightarrow> context_value \<Rightarrow> nat \<Rightarrow> bool" where
  "attempted t deps ctx k =
     (int k \<le> maxRetries (task_retryPolicy t)
      \<and> (\<forall>j<k. isl (execute (options t) deps ctx j)))"

definition printable :: "js_value \<Rightarrow> bool" where
  "printable v = (string_conversion v = None)"

definition printable_throws :: "task \<Rightarrow> js_value \<Rightarrow> context_value \<Rightarrow> bool" where
  "printable_throws t deps ctx =
     ((\<forall>k e. attempted t deps ctx k \<longrightarrow> execute (options t) deps ctx k = Inl e
          \<longrightarrow> printable e)
      \<and> (\<forall>h k err e. errorHandler (options t) = Some h \<longrightarrow> attempted t deps ctx k
            \<longrightarrow> int k = maxRetries (task_retryPolicy t)
            \<longrightarrow> execute (options t) deps ctx k = Inl err
            \<longrightarrow> h (toError err) deps ctx = Inl e \<longrightarrow> printable e))"

text \<open>
  Example tasks as the constructor builds them: one with a retry policy whose execute
  operation always throws, the same with an error handler that returns, and one whose
  execute operation returns the value under a key of the context and throws when the
  context has no such key.
\<close>

definition retrying :: "string \<Rightarrow> int \<Rightarrow> rat \<Rightarrow> js_value \<Rightarrow> task" where
  "retrying tid n d v =
     \<lparr>options = (throwing tid [] v)
        \<lparr>retryPolicy := Some \<lparr>maxRetries = Number (of_int n), retryDelayMs = Number d\<rparr>\<rparr>,
      task_dependencies = [],
      task_retryPolicy = \<lparr>maxRetries = n, retryDelayMs = Number d\<rparr>,
      task_status = Pending\<rparr>"

definition handled :: "task \<Rightarrow> task" where
  "handled t = t\<lparr>options := (options t)\<lparr>errorHandler := Some (\<lambda>err deps ctx. Inr ())\<rparr>\<rparr>"


text \<open>
  Updates with pairwise distinct keys, and the object a context holds once every pending
  merge has been applied.
\<close>

fun disjoint_keys :: "context_value list \<Rightarrow> bool" where
  "disjoint_keys [] = True"
| "disjoint_keys (u # us) = (list_all (\<lambda>w. dom u \<inter> dom w = {}) us \<and> disjoint_keys us)"

definition merged :: "execution_context \<Rightarrow> context_value" where
  "merged c = foldl (++) (object c) (updateQueue c)"

text \<open>
  The invariant of the local state of \<open>run\<close>: the task map has one entry per id; the
  completed, running and ready tasks are tasks of the map, each listed once, and no task
  is in two of the three collections; the update promise a \<open>runTask\<close> call awaits is
  fulfilled by the merges applied so far and those still chained; and while the loop
  awaits the race a task is running.
\<close>

definition rs_inv :: "run_state \<Rightarrow> bool" where
  "rs_inv s =
     (distinct (map fst (rs_tasks s))
      \<and> set (completed s) \<subseteq> fst ` set (rs_tasks s) \<and> distinct (completed s)
      \<and> fst ` set (running s) \<subseteq> fst ` set (rs_tasks s) \<and> distinct (map fst (running s))
      \<and> set (readyTasks s) \<subseteq> fst ` set (rs_tasks s) \<and> distinct (readyTasks s)
      \<and> fst ` set (running s) \<inter> set (completed s) = {}
      \<and> set (readyTasks s) \<inter> set (completed s) = {}
      \<and> set (readyTasks s) \<inter> fst ` set (running s) = {}
      \<and> (\<forall>tid n. (tid, Updating n) \<in> set (running s)
            \<longrightarrow> n \<le> applied s + length (updateQueue (rs_context s)))
      \<and> (loop s = Awaiting \<longrightarrow> running s \<noteq> []))"

text \<open>
  The actions that do something, as a relation between the state before and the state
  after: the loop runs an iteration, a merge is applied, a \<open>task.run\<close> settles, a
  \<open>runTask\<close> call chains its update, a \<open>runTask\<close> call finishes.
\<close>

inductive move :: "js_value \<Rightarrow> run_state \<Rightarrow> run_state \<Rightarrow> bool" for deps where
  resume: "loop s = Woken \<Longrightarrow> loop_iteration s = Inr s' \<Longrightarrow> move deps s s'"
| merge: "updateQueue (rs_context s) \<noteq> [] \<Longrightarrow> move deps s (apply_merge s)"
| settle: "(tid, Started snapshot) \<in> set (running s) \<Longrightarrow>
           settle_run deps tid snapshot s = Inr s' \<Longrightarrow> move deps s s'"
| update: "(tid, Returned result) \<in> set (running s) \<Longrightarrow>
           move deps s (call_update tid result s)"
| finish: "(tid, p) \<in> set (running s) \<Longrightarrow>
           p = Rejected \<or> (\<exists>n. p = Updating n \<and> n \<le> applied s) \<Longrightarrow>
           move deps s (finish_task tid s)"

text \<open>
  What is left to do in a run, as numbers that decrease lexicographically with every
  action that does something: the tasks not completed, the tasks not started, the pieces
  the running \<open>runTask\<close> calls still have to run, the merges chained, and the pending
  continuation of the loop.
\<close>

fun pieces :: "progress \<Rightarrow> nat" where
  "pieces (Started snapshot) = 3"
| "pieces (Returned result) = 2"
| "pieces Rejected = 1"
| "pieces (Updating n) = 1"

definition remaining :: "(run_state \<Rightarrow> nat) list" where
  "remaining =
     [\<lambda>s. length (rs_tasks s) - length (completed s),
      \<lambda>s. length (rs_tasks s) - length (completed s) - length (running s),
      \<lambda>s. sum_list (map (\<lambda>(tid, p). pieces p) (running s)),
      \<lambda>s. length (updateQueue (rs_context s)),
      \<lambda>s. if loop s = Woken then 1 else 0]"







text \<open>Task maps as a builder makes them: every task pending, with a valid retry policy.\<close>

definition fresh_tasks :: "task_map \<Rightarrow> bool" where
  "fresh_tasks ts =
     list_all (\<lambda>(k, t). task_status t = Pending \<and> 0 \<le> maxRetries (task_retryPolicy t)) ts"

text \<open>
  The public API end to end: a new builder, a chain of \<open>addTask\<close> calls, \<open>build\<close>
  and \<open>run\<close>; and the value the context a run resolves with holds under a key.
\<close>

definition run_graph :: "task_options list \<Rightarrow> js_value \<Rightarrow> context_seed \<Rightarrow> schedule
    \<Rightarrow> (error + run_state) option" where
  "run_graph optss deps seed sched =
     (case addTasks optss (new_TaskGraphBuilder deps seed) of
        Inl e \<Rightarrow> Some (Inl e)
      | Inr b \<Rightarrow> (case build b of Inl e \<Rightarrow> Some (Inl e) | Inr r \<Rightarrow> run sched r))"

definition resolved_value :: "(error + run_state) option \<Rightarrow> string \<Rightarrow> (error + js_value option) option" where
  "resolved_value res key =
     map_option (map_sum id (\<lambda>s. Context_value (rs_context s) key)) res"

text \<open>
  The context value under \<open>initial\<close> is \<open>x\<close>, no task is named \<open>initial\<close> and no
  chained merge has the key \<open>initial\<close>.
\<close>

definition initial_kept :: "js_value \<Rightarrow> run_state \<Rightarrow> bool" where
  "initial_kept x s =
     (''initial'' \<notin> fst ` set (rs_tasks s) \<and> object (rs_context s) ''initial'' = Some x
      \<and> list_all (\<lambda>u. ''initial'' \<notin> dom u) (updateQueue (rs_context s)))"

text \<open>
  An example graph: \<open>a\<close>, whose execute operation returns the value under the key
  \<open>x\<close> of the context and throws when the context has no such key, and \<open>b\<close>, which
  depends on \<open>a\<close>; the builder after both were added and the runner \<open>build\<close> returns.
\<close>

definition requiring :: "string \<Rightarrow> string list \<Rightarrow> string \<Rightarrow> task_options" where
  "requiring tid deps key =
     \<lparr>taskId = tid,
      execute = (\<lambda>bag ctx k. case ctx key of None \<Rightarrow> Inl (ErrorObject ''missing'')
                                | Some v \<Rightarrow> Inr v),
      dependencies = Some (map Str deps), retryPolicy = None, errorHandler = None\<rparr>"

text \<open>
  An example task whose execute operation returns whether the context it was started with
  has a key.
\<close>

definition probing :: "string \<Rightarrow> string list \<Rightarrow> string \<Rightarrow> task_options" where
  "probing tid deps key =
     \<lparr>taskId = tid, execute = (\<lambda>bag ctx k. Inr (Boolean (ctx key \<noteq> None))),
      dependencies = Some (map Str deps), retryPolicy = None, errorHandler = None\<rparr>"

definition new_task :: "task_options \<Rightarrow> string list \<Rightarrow> task" where
  "new_task opts deps =
     \<lparr>options = opts, task_dependencies = deps,
      task_retryPolicy = \<lparr>maxRetries = 0, retryDelayMs = Number 0\<rparr>, task_status = Pending\<rparr>"

definition starved_runner :: runner where
  "starved_runner =
     \<lparr>r_dependencies = Object [], r_contextValueOrFactory = SeedValue Undefined,
      r_topologicalOrder = [''a'', ''b''],
      r_tasks = [(''a'', new_task (requiring ''a'' [] ''x'') []),
                 (''b'', new_task (returning ''b'' [''a''] Null) [''a''])],
      r_context = new_Context Undefined\<rparr>"


text \<open>
  A second example graph: \<open>a\<close> and \<open>c\<close> without dependencies, \<open>d\<close>, which depends
  on \<open>a\<close> and returns whether its context has the key \<open>c\<close>, and \<open>e\<close>, which
  depends on \<open>c\<close> and returns whether its context has the key \<open>d\<close>.
\<close>

definition probe_runner :: runner where
  "probe_runner =
     \<lparr>r_dependencies = Object [], r_contextValueOrFactory = SeedValue Undefined,
      r_topologicalOrder = [''a'', ''c'', ''d'', ''e''],
      r_tasks = [(''a'', new_task (returning ''a'' [] Null) []),
                 (''c'', new_task (returning ''c'' [] Null) []),
                 (''d'', new_task (probing ''d'' [''a''] ''c'') [''a'']),
                 (''e'', new_task (probing ''e'' [''c''] ''d'') [''c''])],
      r_context = new_Context Undefined\<rparr>"

section \<open>Properties of the builder\<close>

lemma map_of_eq_None_keys: "(map_of ts k = None) = (k \<notin> fst ` set ts)"
  by (simp add: map_of_eq_None_iff)

lemma map_of_Some_key: "map_of ts k = Some v \<Longrightarrow> k \<in> fst ` set ts"
  by (metis map_of_eq_None_keys option.distinct(1))

lemma names_simps [simp]:
  "names [] = []"
  "names (Str n # ds) = n # names ds"
  "names (xs @ ys) = names xs @ names ys"
  by (simp_all add: names_def List.map_filter_def)

lemma names_map_Str [simp]: "names (map Str ns) = ns"
  by (induction ns) simp_all

lemma names_good:
  "\<not> bad_dependency tid K d \<Longrightarrow> names (d # ds) = the (as_string d) # names ds"
  by (cases "as_string d") (auto simp: bad_dependency_def names_def map_filter_simps)

lemma set_names_good:
  "\<forall>d \<in> set ds. \<not> bad_dependency tid K d \<Longrightarrow> set (names ds) \<subseteq> K - {tid}"
proof (induction ds)
  case Nil
  then show ?case by simp
next
  case (Cons d ds)
  then have g: "\<not> bad_dependency tid K d" by simp
  then obtain n where "as_string d = Some n" "n \<noteq> tid" "n \<in> K"
    by (cases "as_string d") (auto simp: bad_dependency_def)
  with Cons names_good[OF g, of ds] show ?case by auto
qed

lemma addDependencies_walk:
  assumes "map_of ts tid = Some t" "taskId (options t) = tid"
  shows "addDependencies t ds ts =
     (case find (bad_dependency tid (fst ` set ts)) ds of
        None \<Rightarrow>
          (Inr (), AList.update tid (t\<lparr>task_dependencies := task_dependencies t @ names ds\<rparr>) ts)
      | Some d \<Rightarrow>
          (Inl (dependency_error tid d),
           AList.update tid
             (t\<lparr>task_dependencies := task_dependencies t
                  @ names (takeWhile (\<lambda>d. \<not> bad_dependency tid (fst ` set ts) d) ds)\<rparr>) ts))"
  using assms
proof (induction ds arbitrary: ts t)
  case Nil
  then show ?case by (simp add: map_of_eq_Some_iff update_triv)
next
  case (Cons d ds)
  show ?case
  proof (cases "bad_dependency tid (fst ` set ts) d")
    case True
    with Cons.prems show ?thesis
      by (auto simp: map_of_eq_None_keys[symmetric] addDependency_def update_triv
            bad_dependency_def dependency_error_def split: option.splits)
  next
    case False
    then obtain n where n: "as_string d = Some n" "n \<noteq> tid" "n \<in> fst ` set ts"
      by (cases "as_string d") (auto simp: bad_dependency_def)
    then obtain dt where dt: "map_of ts n = Some dt"
      by (cases "map_of ts n") (auto simp: map_of_eq_None_keys)
    let ?t' = "t\<lparr>task_dependencies := task_dependencies t @ [n]\<rparr>"
    have k: "fst ` set (AList.update tid ?t' ts) = fst ` set ts"
    proof -
      from Cons.prems(1) have "tid \<in> fst ` set ts"
        by (rule map_of_Some_key)
      then show ?thesis by (auto simp: dom_update)
    qed
    have nm: "\<And>xs. names (d # xs) = n # names xs"
      using names_good[OF False] n(1) by simp
    have "addDependencies t (d # ds) ts = addDependencies ?t' ds (AList.update tid ?t' ts)"
      using n dt Cons.prems by (simp add: addDependency_def)
    also have "\<dots> = (case find (bad_dependency tid (fst ` set ts)) ds of
        None \<Rightarrow>
          (Inr (), AList.update tid (?t'\<lparr>task_dependencies := task_dependencies ?t' @ names ds\<rparr>) ts)
      | Some d \<Rightarrow>
          (Inl (dependency_error tid d),
           AList.update tid
             (?t'\<lparr>task_dependencies := task_dependencies ?t'
                  @ names (takeWhile (\<lambda>d. \<not> bad_dependency tid (fst ` set ts) d) ds)\<rparr>) ts))"
      using Cons.IH[of "AList.update tid ?t' ts" ?t'] Cons.prems
      by (simp add: k update_conv' split: option.splits)
    finally show ?thesis using False by (simp add: nm split: option.splits)
  qed
qed

lemma update_fresh: "k \<notin> fst ` set al \<Longrightarrow> AList.update k v al = al @ [(k, v)]"
  by (induction al) auto

lemma update_last_entry:
  "k \<notin> fst ` set al \<Longrightarrow> AList.update k v' (al @ [(k, v)]) = al @ [(k, v')]"
  by (induction al) auto

lemma bad_dependency_insert:
  "bad_dependency tid (insert tid K) = bad_dependency tid K"
  by (auto simp: bad_dependency_def fun_eq_iff split: option.splits)

lemma addTask_result:
  "addTask opts b =
     (if taskId opts \<in> fst ` set (b_tasks b) then (Inl (TaskAlreadyExists (taskId opts)), b)
      else case new_Task opts of
             Inl e \<Rightarrow> (Inl e, b)
           | Inr t \<Rightarrow>
               (case find (bad_dependency (taskId opts) (fst ` set (b_tasks b))) (declared opts) of
                  None \<Rightarrow>
                    (Inr (), b\<lparr>b_tasks := b_tasks b @
                       [(taskId opts, t\<lparr>task_dependencies := names (declared opts)\<rparr>)]\<rparr>)
                | Some d \<Rightarrow>
                    (Inl (dependency_error (taskId opts) d),
                     b\<lparr>b_tasks := b_tasks b @
                       [(taskId opts, t\<lparr>task_dependencies :=
                          names (takeWhile
                            (\<lambda>d. \<not> bad_dependency (taskId opts) (fst ` set (b_tasks b)) d)
                            (declared opts))\<rparr>)]\<rparr>)))"
proof (cases "taskId opts \<in> fst ` set (b_tasks b)")
  case True
  then show ?thesis by (simp add: addTask_def map_of_eq_None_keys)
next
  case False
  note fresh = this
  show ?thesis
  proof (cases "new_Task opts")
    case (Inl e)
    with fresh show ?thesis by (simp add: addTask_def map_of_eq_None_keys)
  next
    case (Inr t)
    then have t: "taskId (options t) = taskId opts" "task_dependencies t = []"
      by (auto simp: new_Task_def Let_def split: option.splits sum.splits)
    let ?ts = "AList.update (taskId opts) t (b_tasks b)"
    have ts: "?ts = b_tasks b @ [(taskId opts, t)]"
      using fresh by (rule update_fresh)
    have m: "map_of ?ts (taskId opts) = Some t" by (simp add: update_conv')
    have keys: "fst ` set ?ts = insert (taskId opts) (fst ` set (b_tasks b))"
      by (simp add: dom_update)
    have u: "\<And>t'. AList.update (taskId opts) t' ?ts = b_tasks b @ [(taskId opts, t')]"
      unfolding ts using fresh by (rule update_last_entry)
    show ?thesis
      using fresh Inr addDependencies_walk[OF m t(1), of "declared opts"]
      unfolding keys bad_dependency_insert u
      by (simp add: addTask_def map_of_eq_None_keys declared_def t(2) split: option.splits)
  qed
qed

lemma topo_Nil: "topo ts []"
  by (simp add: topo_def)

lemma topo_snoc:
  assumes "topo ts seg" "tid \<notin> set seg" "set (deps_of ts tid) \<subseteq> set seg"
  shows "topo ts (seg @ [tid])"
  unfolding topo_def
proof (intro allI impI)
  fix xs u ys
  assume eq: "seg @ [tid] = xs @ u # ys"
  show "u \<notin> set xs \<and> set (deps_of ts u) \<subseteq> set xs"
  proof (cases ys rule: rev_cases)
    case Nil
    with eq have "xs = seg" "u = tid" by auto
    with assms show ?thesis by simp
  next
    case (snoc ys' y)
    with eq have "seg = xs @ u # ys'" by simp
    with assms(1) show ?thesis unfolding topo_def by blast
  qed
qed

declare visit.simps [simp del]

lemma visit_ok:
  "closed ts \<Longrightarrow> acyclic (dep_rel ts) \<Longrightarrow> tid \<in> fst ` set ts \<Longrightarrow>
   (\<forall>a \<in> temp s. (a, tid) \<in> (dep_rel ts)\<^sup>+) \<Longrightarrow> sort_inv ts pre s \<Longrightarrow>
   \<exists>s'. visit ts tid s = Inr s' \<and> temp s' = temp s \<and> sort_inv ts pre s'
        \<and> visited s \<subseteq> visited s' \<and> tid \<in> visited s'"
  "closed ts \<Longrightarrow> acyclic (dep_rel ts) \<Longrightarrow> set ds \<subseteq> fst ` set ts \<Longrightarrow>
   (\<forall>a \<in> temp s. \<forall>d \<in> set ds. (a, d) \<in> (dep_rel ts)\<^sup>+) \<Longrightarrow> sort_inv ts pre s \<Longrightarrow>
   \<exists>s'. visit_deps ts ds s = Inr s' \<and> temp s' = temp s \<and> sort_inv ts pre s'
        \<and> visited s \<subseteq> visited s' \<and> set ds \<subseteq> visited s'"
proof (induction ts tid s and ts ds s rule: visit_visit_deps.induct)
  case (1 ts tid s)
  note cl = "1.prems"(1) and ac = "1.prems"(2) and key = "1.prems"(3)
    and anc = "1.prems"(4) and inv = "1.prems"(5)
  have notemp: "tid \<notin> temp s"
  proof
    assume "tid \<in> temp s"
    with anc have "(tid, tid) \<in> (dep_rel ts)\<^sup>+" by blast
    with ac show False by (simp add: acyclic_def)
  qed
  show ?case
  proof (cases "tid \<in> visited s")
    case True
    with notemp inv show ?thesis by (simp add: visit.simps)
  next
    case False
    from key obtain t where t: "map_of ts tid = Some t"
      by (cases "map_of ts tid") (auto simp: map_of_eq_None_keys)
    then have deps: "deps_of ts tid = task_dependencies t" by (simp add: deps_of_def)
    let ?s1 = "s\<lparr>temp := insert tid (temp s)\<rparr>"
    have sub: "set (task_dependencies t) \<subseteq> fst ` set ts"
      using cl deps unfolding closed_def by metis
    have edge: "\<And>d. d \<in> set (task_dependencies t) \<Longrightarrow> (tid, d) \<in> dep_rel ts"
      using deps by (simp add: dep_rel_def)
    have anc1: "\<forall>a \<in> temp ?s1. \<forall>d \<in> set (task_dependencies t). (a, d) \<in> (dep_rel ts)\<^sup>+"
    proof (intro ballI)
      fix a d assume a: "a \<in> temp ?s1" and d: "d \<in> set (task_dependencies t)"
      show "(a, d) \<in> (dep_rel ts)\<^sup>+"
      proof (cases "a = tid")
        case True
        with edge[OF d] show ?thesis by blast
      next
        case False
        with a have "a \<in> temp s" by simp
        with anc have "(a, tid) \<in> (dep_rel ts)\<^sup>+" by blast
        then show ?thesis using edge[OF d] by (rule trancl_into_trancl)
      qed
    qed
    have inv1: "sort_inv ts pre ?s1"
      using inv False unfolding sort_inv_def by auto
    from "1.IH"[OF notemp False t cl ac sub anc1 inv1]
    obtain s2 where s2: "visit_deps ts (task_dependencies t) ?s1 = Inr s2"
      and t2: "temp s2 = insert tid (temp s)" and inv2: "sort_inv ts pre s2"
      and v2: "visited s \<subseteq> visited s2" and d2: "set (task_dependencies t) \<subseteq> visited s2"
      by auto
    let ?s' = "s2\<lparr>temp := temp s2 - {tid}, visited := insert tid (visited s2),
                  order := order s2 @ [tid]\<rparr>"
    have res: "visit ts tid s = Inr ?s'"
      using notemp False t s2 by (simp add: visit.simps)
    from inv2 obtain seg where seg: "order s2 = pre @ seg" "set seg = visited s2"
      "topo ts seg" "temp s2 \<inter> visited s2 = {}" "visited s2 \<subseteq> fst ` set ts"
      unfolding sort_inv_def by blast
    from seg(4) t2 have nv: "tid \<notin> visited s2" by auto
    have "topo ts (seg @ [tid])"
      using seg(3) nv seg(2) d2 deps by (intro topo_snoc) auto
    moreover have "(temp s2 - {tid}) \<inter> insert tid (visited s2) = {}"
      using seg(4) by auto
    ultimately have inv': "sort_inv ts pre ?s'"
      unfolding sort_inv_def using seg key
      by (intro exI[of _ "seg @ [tid]"]) auto
    from t2 notemp have "temp ?s' = temp s" by auto
    with res inv' v2 show ?thesis by auto
  qed
next
  case (2 ts s)
  then show ?case by simp
next
  case (3 ts depId rest s)
  note cl = "3.prems"(1) and ac = "3.prems"(2) and sub = "3.prems"(3)
    and anc = "3.prems"(4) and inv = "3.prems"(5)
  from sub have k: "depId \<in> fst ` set ts" by simp
  from anc have a1: "\<forall>a \<in> temp s. (a, depId) \<in> (dep_rel ts)\<^sup>+" by simp
  from "3.IH"(1)[OF cl ac k a1 inv]
  obtain s1 where s1: "visit ts depId s = Inr s1" and t1: "temp s1 = temp s"
    and inv1: "sort_inv ts pre s1" and v1: "visited s \<subseteq> visited s1"
    and d1: "depId \<in> visited s1" by auto
  from sub have sub': "set rest \<subseteq> fst ` set ts" by simp
  from anc t1 have a2: "\<forall>a \<in> temp s1. \<forall>d \<in> set rest. (a, d) \<in> (dep_rel ts)\<^sup>+" by simp
  from "3.IH"(2)[OF s1 cl ac sub' a2 inv1]
  obtain s2 where "visit_deps ts rest s1 = Inr s2" "temp s2 = temp s1"
    "sort_inv ts pre s2" "visited s1 \<subseteq> visited s2" "set rest \<subseteq> visited s2" by auto
  with s1 t1 v1 d1 show ?case by auto
qed

lemma sort_loop_ok:
  "closed ts \<Longrightarrow> acyclic (dep_rel ts) \<Longrightarrow> set ks \<subseteq> fst ` set ts \<Longrightarrow>
   temp s = {} \<Longrightarrow> sort_inv ts pre s \<Longrightarrow>
   \<exists>s'. sort_loop ts ks s = Inr s' \<and> sort_inv ts pre s'
        \<and> visited s \<subseteq> visited s' \<and> set ks \<subseteq> visited s'"
proof (induction ks arbitrary: s)
  case Nil
  then show ?case by simp
next
  case (Cons k ks)
  from Cons.prems(3) have ks: "set ks \<subseteq> fst ` set ts" and k: "k \<in> fst ` set ts" by auto
  show ?case
  proof (cases "k \<in> visited s")
    case True
    from Cons.IH[OF Cons.prems(1,2) ks Cons.prems(4,5)]
    obtain s' where "sort_loop ts ks s = Inr s'" "sort_inv ts pre s'"
      "visited s \<subseteq> visited s'" "set ks \<subseteq> visited s'" by auto
    with True show ?thesis by auto
  next
    case False
    from Cons.prems(4) have "\<forall>a \<in> temp s. (a, k) \<in> (dep_rel ts)\<^sup>+" by simp
    from visit_ok(1)[OF Cons.prems(1,2) k this Cons.prems(5)]
    obtain s1 where s1: "visit ts k s = Inr s1" "temp s1 = temp s" "sort_inv ts pre s1"
      "visited s \<subseteq> visited s1" "k \<in> visited s1" by auto
    from s1(2) Cons.prems(4) have "temp s1 = {}" by simp
    from Cons.IH[OF Cons.prems(1,2) ks this s1(3)]
    obtain s' where "sort_loop ts ks s1 = Inr s'" "sort_inv ts pre s'"
      "visited s1 \<subseteq> visited s'" "set ks \<subseteq> visited s'" by auto
    with False s1 show ?thesis by auto
  qed
qed

lemma topo_distinct: "topo ts seg \<Longrightarrow> distinct seg"
proof (rule ccontr)
  assume t: "topo ts seg" and "\<not> distinct seg"
  then obtain xs ys zs y where "seg = xs @ [y] @ ys @ [y] @ zs"
    using not_distinct_decomp by blast
  then have "seg = (xs @ [y] @ ys) @ y # zs" by simp
  with t have "y \<notin> set (xs @ [y] @ ys)" unfolding topo_def by blast
  then show False by simp
qed

lemma topo_before:
  assumes "topo ts seg" "tid \<in> set seg" "depId \<in> set (deps_of ts tid)"
  shows "before seg depId tid"
proof -
  from assms(2) obtain xs ys where seg: "seg = xs @ tid # ys"
    by (auto dest: split_list)
  with assms(1,3) have "depId \<in> set xs" unfolding topo_def by blast
  then obtain i where i: "i < length xs" "xs ! i = depId"
    by (auto simp: in_set_conv_nth)
  show ?thesis
    unfolding before_def
    by (rule exI[of _ i], rule exI[of _ "length xs"]) (use i seg in \<open>simp add: nth_append\<close>)
qed

lemma topologicalSort_ok:
  assumes "closed (b_tasks b)" "acyclic (dep_rel (b_tasks b))"
  shows "\<exists>new. topologicalSort b = Inr (b\<lparr>b_topologicalOrder := b_topologicalOrder b @ new\<rparr>)
            \<and> set new = fst ` set (b_tasks b) \<and> topo (b_tasks b) new"
proof -
  let ?s0 = "\<lparr>visited = {}, temp = {}, order = b_topologicalOrder b\<rparr>"
  have "sort_inv (b_tasks b) (b_topologicalOrder b) ?s0"
    by (simp add: sort_inv_def topo_Nil)
  from sort_loop_ok[OF assms _ _ this, of "map fst (b_tasks b)"]
  obtain s' where s': "sort_loop (b_tasks b) (map fst (b_tasks b)) ?s0 = Inr s'"
    "sort_inv (b_tasks b) (b_topologicalOrder b) s'"
    "set (map fst (b_tasks b)) \<subseteq> visited s'" by auto
  from s'(2) obtain seg where seg: "order s' = b_topologicalOrder b @ seg"
    "set seg = visited s'" "topo (b_tasks b) seg" "visited s' \<subseteq> fst ` set (b_tasks b)"
    unfolding sort_inv_def by blast
  from seg(2,4) s'(3) have "set seg = fst ` set (b_tasks b)" by auto
  with s'(1) seg(1,3) show ?thesis
    by (auto simp: topologicalSort_def)
qed

lemma deps_of_snoc:
  "tid \<notin> fst ` set ts \<Longrightarrow>
   deps_of (ts @ [(tid, t)]) k =
     (if k = tid then task_dependencies t else deps_of ts k)"
  by (auto simp: deps_of_def map_add_def split: option.splits dest: map_of_Some_key)

lemma deps_of_not_key: "k \<notin> fst ` set ts \<Longrightarrow> deps_of ts k = []"
  by (simp add: deps_of_def map_of_eq_None_keys[symmetric])

lemma insertion_ordered_rank:
  "insertion_ordered ts \<Longrightarrow>
   closed ts \<and> (\<exists>f :: string \<Rightarrow> nat. (\<forall>k \<in> fst ` set ts. f k < length ts) \<and>
      (\<forall>a b. (a, b) \<in> dep_rel ts \<longrightarrow> f b < f a))"
proof (induction rule: insertion_ordered.induct)
  case empty
  then show ?case by (simp add: closed_def dep_rel_def deps_of_def)
next
  case (snoc ts tid t)
  then obtain f where cl: "closed ts" and f: "\<forall>k \<in> fst ` set ts. f k < length ts"
    "\<forall>a b. (a, b) \<in> dep_rel ts \<longrightarrow> f b < f a" by blast
  let ?ts = "ts @ [(tid, t)]"
  have cl': "closed ?ts"
    using cl snoc.hyps(2,3) by (auto simp: closed_def deps_of_snoc)
  let ?f = "f(tid := length ts)"
  have 1: "\<forall>k \<in> fst ` set ?ts. ?f k < length ?ts"
    using f(1) by (auto simp: less_Suc_eq)
  have 2: "\<forall>a b. (a, b) \<in> dep_rel ?ts \<longrightarrow> ?f b < ?f a"
  proof (intro allI impI)
    fix a b assume ab: "(a, b) \<in> dep_rel ?ts"
    show "?f b < ?f a"
    proof (cases "a = tid")
      case True
      with ab snoc.hyps(2) have "b \<in> set (task_dependencies t)"
        by (simp add: dep_rel_def deps_of_snoc)
      with snoc.hyps(3) have b: "b \<in> fst ` set ts" by auto
      with snoc.hyps(2) have "b \<noteq> tid" by auto
      with True b f(1) show ?thesis by auto
    next
      case False
      with ab snoc.hyps(2) have ab': "(a, b) \<in> dep_rel ts"
        by (simp add: dep_rel_def deps_of_snoc)
      then have "b \<in> fst ` set ts"
        using cl by (auto simp: dep_rel_def closed_def)
      with snoc.hyps(2) have "b \<noteq> tid" by auto
      with False ab' f(2) show ?thesis by auto
    qed
  qed
  from cl' 1 2 show ?case by blast
qed

lemma insertion_ordered_closed: "insertion_ordered ts \<Longrightarrow> closed ts"
  by (simp add: insertion_ordered_rank)

lemma insertion_ordered_acyclic:
  assumes "insertion_ordered ts"
  shows "acyclic (dep_rel ts)"
proof -
  from insertion_ordered_rank[OF assms] obtain f :: "string \<Rightarrow> nat" where
    f: "\<forall>a b. (a, b) \<in> dep_rel ts \<longrightarrow> f b < f a" by blast
  then have "dep_rel ts \<subseteq> (measure f)\<inverse>" by auto
  moreover have "acyclic ((measure f)\<inverse>)" by (simp add: wf_acyclic)
  ultimately show ?thesis by (rule acyclic_subset[rotated])
qed

subsection \<open>addTask\<close>

lemma valid_maxRetries:
  "(is_number v \<and> \<not> negative v \<and> isInteger v) = (\<exists>n\<ge>0. v = Number (of_int n))"
proof (cases v)
  case (Number q)
  show ?thesis
  proof
    assume "is_number v \<and> \<not> negative v \<and> isInteger v"
    with Number have q: "0 \<le> q" "of_int \<lfloor>q\<rfloor> = q" by auto
    from q(1) have "0 \<le> \<lfloor>q\<rfloor>" by simp
    with q(2) Number show "\<exists>n\<ge>0. v = Number (of_int n)" by metis
  next
    assume "\<exists>n\<ge>0. v = Number (of_int n)"
    with Number show "is_number v \<and> \<not> negative v \<and> isInteger v" by auto
  qed
qed simp_all

lemma fraction_not_integer: "\<not> isInteger (Number (3 / 2))"
proof -
  have "\<lfloor>(3::rat) / 2\<rfloor> = 1" by (rule floor_unique) simp_all
  then show ?thesis by simp
qed

lemma valid_retryDelayMs:
  "(is_number v \<and> \<not> negative v) = ((\<exists>q\<ge>0. v = Number q) \<or> v = NaN \<or> v = Infinity)"
  by (cases v) auto

lemma new_Task_cases:
  "new_Task opts =
     (if (case retryPolicy opts of None \<Rightarrow> False
          | Some p \<Rightarrow> \<not> (\<exists>n\<ge>0. maxRetries p = Number (of_int n)))
      then Inl InvalidMaxRetries
      else if (case retryPolicy opts of None \<Rightarrow> False
               | Some p \<Rightarrow> \<not> ((\<exists>q\<ge>0. retryDelayMs p = Number q) \<or> retryDelayMs p = NaN
                              \<or> retryDelayMs p = Infinity))
      then Inl InvalidRetryDelay
      else Inr \<lparr>options = opts, task_dependencies = [],
                task_retryPolicy =
                  (case retryPolicy opts of
                     None \<Rightarrow> \<lparr>maxRetries = 0, retryDelayMs = Number 0\<rparr>
                   | Some p \<Rightarrow> \<lparr>maxRetries = integer_of (maxRetries p),
                                retryDelayMs = retryDelayMs p\<rparr>),
                task_status = Pending\<rparr>)"
proof (cases "retryPolicy opts")
  case None
  then show ?thesis by (simp add: new_Task_def)
next
  case (Some p)
  have "validateRetryPolicy p =
     (if \<not> (\<exists>n\<ge>0. maxRetries p = Number (of_int n)) then Inl InvalidMaxRetries
      else if \<not> ((\<exists>q\<ge>0. retryDelayMs p = Number q) \<or> retryDelayMs p = NaN
                  \<or> retryDelayMs p = Infinity)
      then Inl InvalidRetryDelay else Inr ())"
    unfolding validateRetryPolicy_def
    by (auto simp: valid_maxRetries[symmetric] valid_retryDelayMs[symmetric])
  with Some show ?thesis by (simp add: new_Task_def)
qed

text \<open>
  Claim C7, as the code has it. \<open>addTask\<close> checks in this order and throws at the first
  check that fails: the id is already registered (duplicate-task error); a retry policy
  is given whose \<open>maxRetries\<close> is not a non-negative integer, so also when it is a
  fraction, \<open>NaN\<close>, an infinity or not a number, or else whose \<open>retryDelayMs\<close> is not
  a number or is negative (the errors of the retry policy); then the declared
  dependencies one by one, in the order they are declared: a dependency that is not a
  string has an error of its own, a dependency that is the task's own id is a
  self-dependency error, a dependency that is not registered is an unknown-dependency
  error. When no check fails the call succeeds and the task is registered last, pending,
  with the declared dependencies.
\<close>

theorem addTask_outcome:
  "fst (addTask opts b) =
     (if taskId opts \<in> fst ` set (b_tasks b) then Inl (TaskAlreadyExists (taskId opts))
      else if (case retryPolicy opts of None \<Rightarrow> False
               | Some p \<Rightarrow> \<not> (\<exists>n\<ge>0. maxRetries p = Number (of_int n)))
      then Inl InvalidMaxRetries
      else if (case retryPolicy opts of None \<Rightarrow> False
               | Some p \<Rightarrow> \<not> ((\<exists>q\<ge>0. retryDelayMs p = Number q) \<or> retryDelayMs p = NaN
                              \<or> retryDelayMs p = Infinity))
      then Inl InvalidRetryDelay
      else case find (bad_dependency (taskId opts) (fst ` set (b_tasks b))) (declared opts) of
             None \<Rightarrow> Inr ()
           | Some d \<Rightarrow>
               (case as_string d of
                  None \<Rightarrow> Inl DependencyIdNotString
                | Some n \<Rightarrow>
                    if n = taskId opts then Inl SelfDependency
                    else Inl (DependencyNotFound n (taskId opts))))
   \<and> (fst (addTask opts b) = Inr () \<longrightarrow>
        b_tasks (snd (addTask opts b)) =
          b_tasks b @
            [(taskId opts,
              \<lparr>options = opts, task_dependencies = names (declared opts),
               task_retryPolicy =
                 (case retryPolicy opts of
                    None \<Rightarrow> \<lparr>maxRetries = 0, retryDelayMs = Number 0\<rparr>
                  | Some p \<Rightarrow> \<lparr>maxRetries = integer_of (maxRetries p),
                               retryDelayMs = retryDelayMs p\<rparr>),
               task_status = Pending\<rparr>)])"
  unfolding addTask_result new_Task_cases
  by (auto simp: dependency_error_def split: option.splits)

theorem addTask_outcome_witness:
  "fst (addTask (returning ''b'' [''a''] Null)
          (snd (addTask (returning ''a'' [] Null) empty_builder))) = Inr ()
   \<and> map fst (b_tasks (snd (addTask (returning ''b'' [''a''] Null)
          (snd (addTask (returning ''a'' [] Null) empty_builder))))) = [''a'', ''b'']"
proof -
  have a: "b_tasks (snd (addTask (returning ''a'' [] Null) empty_builder)) =
      [(''a'', \<lparr>options = returning ''a'' [] Null, task_dependencies = [],
               task_retryPolicy = \<lparr>maxRetries = 0, retryDelayMs = Number 0\<rparr>,
               task_status = Pending\<rparr>)]"
    by (simp add: addTask_result new_Task_cases declared_def returning_def empty_builder_def
        new_TaskGraphBuilder_def)
  show ?thesis
    using addTask_outcome[of "returning ''b'' [''a''] Null"
        "snd (addTask (returning ''a'' [] Null) empty_builder)"]
    unfolding a by (simp add: declared_def returning_def bad_dependency_def)
qed

text \<open>
  C7 as stated does not hold. With \<open>a\<close> registered, adding \<open>a\<close> again with the
  unregistered dependency \<open>zzz\<close> throws the duplicate-task error, not the
  unknown-dependency error; and a fresh task without dependencies whose retry policy has
  \<open>maxRetries = -1\<close>, or \<open>maxRetries = 1.5\<close>, does not succeed.
\<close>

theorem addTask_precedence_counterexample:
  "Str ''zzz'' \<in> set (declared (returning ''a'' [''zzz''] Null))
   \<and> ''zzz'' \<notin> fst ` set (b_tasks (snd (addTask (returning ''a'' [] Null) empty_builder)))
   \<and> fst (addTask (returning ''a'' [''zzz''] Null)
            (snd (addTask (returning ''a'' [] Null) empty_builder)))
       = Inl (TaskAlreadyExists ''a'')
   \<and> ''a'' \<notin> fst ` set (b_tasks empty_builder)
   \<and> fst (addTask ((returning ''a'' [] Null)
              \<lparr>retryPolicy := Some \<lparr>maxRetries = Number (- 1), retryDelayMs = Number 0\<rparr>\<rparr>)
            empty_builder)
       = Inl InvalidMaxRetries
   \<and> fst (addTask ((returning ''a'' [] Null)
              \<lparr>retryPolicy := Some \<lparr>maxRetries = Number (3 / 2), retryDelayMs = Number 0\<rparr>\<rparr>)
            empty_builder)
       = Inl InvalidMaxRetries"
  by (simp add: addTask_def new_Task_def validateRetryPolicy_def declared_def returning_def
      empty_builder_def new_TaskGraphBuilder_def fraction_not_integer
      del: isInteger.simps)

text \<open>
  Claim C6 at a failing input: on a builder without tasks, adding \<open>b\<close> with the
  unregistered dependency \<open>a\<close> throws the unknown-dependency error and leaves \<open>b\<close> in
  the task map.
\<close>

theorem addTask_unknown_dependency_keeps_task:
  "fst (addTask (returning ''b'' [''a''] Null) empty_builder)
     = Inl (DependencyNotFound ''a'' ''b'')
   \<and> b_tasks empty_builder = []
   \<and> map fst (b_tasks (snd (addTask (returning ''b'' [''a''] Null) empty_builder))) = [''b'']"
  by (simp add: addTask_def new_Task_def declared_def returning_def empty_builder_def
      new_TaskGraphBuilder_def)

subsection \<open>build\<close>

lemma build_ok:
  assumes "b_tasks b \<noteq> []" "closed (b_tasks b)" "acyclic (dep_rel (b_tasks b))"
  shows "\<exists>new. build b =
            Inr \<lparr>r_dependencies = b_dependencies b,
                 r_contextValueOrFactory = b_contextValueOrFactory b,
                 r_topologicalOrder = b_topologicalOrder b @ new,
                 r_tasks = b_tasks b,
                 r_context = new_Context Undefined\<rparr>
            \<and> set new = fst ` set (b_tasks b) \<and> topo (b_tasks b) new"
proof -
  from topologicalSort_ok[OF assms(2,3)] obtain new where
    "topologicalSort b = Inr (b\<lparr>b_topologicalOrder := b_topologicalOrder b @ new\<rparr>)"
    "set new = fst ` set (b_tasks b)" "topo (b_tasks b) new" by blast
  with assms(1) show ?thesis by (auto simp: build_def)
qed

text \<open>
  Claim C1. A graph is a task map in which every dependency names a task of the map (the
  task map of a builder always is one, see \<open>addTask_ordered\<close> and
  \<open>insertion_ordered_closed\<close>). For every graph without dependency cycles and with at
  least one task, \<open>build\<close> succeeds; the ids it pushes onto the topological order are
  exactly the task ids, each once, and every dependency of a task stands at a smaller
  index than the task.
\<close>

theorem build_topological_order:
  assumes "b_tasks b \<noteq> []" "closed (b_tasks b)" "acyclic (dep_rel (b_tasks b))"
  shows "\<exists>r new. build b = Inr r \<and> r_tasks r = b_tasks b
           \<and> r_topologicalOrder r = b_topologicalOrder b @ new
           \<and> distinct new \<and> set new = fst ` set (b_tasks b)
           \<and> (\<forall>tid depId. tid \<in> fst ` set (b_tasks b) \<longrightarrow>
                 depId \<in> set (deps_of (b_tasks b) tid) \<longrightarrow> before new depId tid)"
proof -
  from build_ok[OF assms] obtain new where new:
    "build b = Inr \<lparr>r_dependencies = b_dependencies b,
                 r_contextValueOrFactory = b_contextValueOrFactory b,
                 r_topologicalOrder = b_topologicalOrder b @ new,
                 r_tasks = b_tasks b,
                 r_context = new_Context Undefined\<rparr>"
    "set new = fst ` set (b_tasks b)" "topo (b_tasks b) new" by blast
  have "distinct new" using new(3) by (rule topo_distinct)
  moreover have "\<forall>tid depId. tid \<in> fst ` set (b_tasks b) \<longrightarrow>
      depId \<in> set (deps_of (b_tasks b) tid) \<longrightarrow> before new depId tid"
    using new(2,3) by (auto intro: topo_before)
  ultimately show ?thesis using new(1,2) by auto
qed

lemma chain_builder_ordered: "insertion_ordered (b_tasks chain_builder)"
proof -
  let ?a = "\<lparr>options = returning ''a'' [] Null, task_dependencies = [],
                  task_retryPolicy = \<lparr>maxRetries = 0, retryDelayMs = Number 0\<rparr>,
                  task_status = Pending\<rparr>"
  let ?b = "\<lparr>options = returning ''b'' [''a''] Null, task_dependencies = [''a''],
                  task_retryPolicy = \<lparr>maxRetries = 0, retryDelayMs = Number 0\<rparr>,
                  task_status = Pending\<rparr>"
  have "insertion_ordered ([] @ [(''a'', ?a)])"
    by (rule insertion_ordered.snoc[OF insertion_ordered.empty]) simp_all
  then have "insertion_ordered ([(''a'', ?a)] @ [(''b'', ?b)])"
    by (intro insertion_ordered.snoc) simp_all
  then show ?thesis by (simp add: chain_builder_def)
qed

theorem build_topological_order_witness:
  "b_tasks chain_builder \<noteq> [] \<and> closed (b_tasks chain_builder)
   \<and> acyclic (dep_rel (b_tasks chain_builder))
   \<and> (\<exists>r new. build chain_builder = Inr r \<and> r_topologicalOrder r = new
         \<and> before new ''a'' ''b'')"
proof -
  have h1: "b_tasks chain_builder \<noteq> []" by (simp add: chain_builder_def)
  have h2: "closed (b_tasks chain_builder)"
    using chain_builder_ordered by (rule insertion_ordered_closed)
  have h3: "acyclic (dep_rel (b_tasks chain_builder))"
    using chain_builder_ordered by (rule insertion_ordered_acyclic)
  from build_topological_order[OF h1 h2 h3] obtain r new where
    r: "build chain_builder = Inr r"
       "r_topologicalOrder r = b_topologicalOrder chain_builder @ new"
       "\<forall>tid depId. tid \<in> fst ` set (b_tasks chain_builder) \<longrightarrow>
          depId \<in> set (deps_of (b_tasks chain_builder) tid) \<longrightarrow> before new depId tid"
    by blast
  have "''b'' \<in> fst ` set (b_tasks chain_builder)"
    "''a'' \<in> set (deps_of (b_tasks chain_builder) ''b'')"
    by (simp_all add: chain_builder_def deps_of_def)
  with r(3) have "before new ''a'' ''b''" by blast
  moreover from r(2) have "r_topologicalOrder r = new" by (simp add: chain_builder_def)
  ultimately show ?thesis using h1 h2 h3 r(1) by blast
qed

lemma addTask_ordered:
  assumes "insertion_ordered (b_tasks b)"
  shows "insertion_ordered (b_tasks (snd (addTask opts b)))"
proof -
  let ?K = "fst ` set (b_tasks b)"
  let ?bad = "bad_dependency (taskId opts) ?K"
  show ?thesis
  proof (cases "taskId opts \<in> ?K \<or> isl (new_Task opts)")
    case True
    with assms show ?thesis
      by (auto simp: addTask_result split: sum.splits)
  next
    case False
    then obtain t where t: "new_Task opts = Inr t" and fresh: "taskId opts \<notin> ?K"
      by (cases "new_Task opts") auto
    have 1: "\<And>ds. \<forall>d \<in> set ds. \<not> ?bad d \<Longrightarrow>
        insertion_ordered (b_tasks b @ [(taskId opts, t\<lparr>task_dependencies := names ds\<rparr>)])"
    proof -
      fix ds assume "\<forall>d \<in> set ds. \<not> ?bad d"
      from set_names_good[OF this] have "set (names ds) \<subseteq> ?K" by blast
      with assms fresh show
        "insertion_ordered (b_tasks b @ [(taskId opts, t\<lparr>task_dependencies := names ds\<rparr>)])"
        by (intro insertion_ordered.snoc) auto
    qed
    have 2: "\<forall>d \<in> set (takeWhile (\<lambda>d. \<not> ?bad d) (declared opts)). \<not> ?bad d"
      by (auto dest: set_takeWhileD)
    have 3: "find ?bad (declared opts) = None \<Longrightarrow> \<forall>d \<in> set (declared opts). \<not> ?bad d"
      by (auto simp: find_None_iff)
    show ?thesis
      using t fresh 1[OF 2] 1[OF 3]
      by (simp add: addTask_result split: option.splits)
  qed
qed

lemma addTasks_ordered:
  "insertion_ordered (b_tasks b) \<Longrightarrow> addTasks optss b = Inr b' \<Longrightarrow>
   insertion_ordered (b_tasks b')"
proof (induction optss arbitrary: b)
  case Nil
  then show ?case by simp
next
  case (Cons opts rest)
  from Cons.prems(2) obtain u b1 where 1: "addTask opts b = (Inr u, b1)"
    and 2: "addTasks rest b1 = Inr b'"
    by (auto split: prod.splits sum.splits)
  from addTask_ordered[OF Cons.prems(1), of opts] 1
  have "insertion_ordered (b_tasks b1)" by simp
  from Cons.IH[OF this 2] show ?case .
qed

text \<open>
  Claim C8. For every builder obtained from a new builder by a chain of successful
  \<open>addTask\<close> calls, \<open>build\<close> does not throw the circular-dependency error, whatever
  the task named in it.
\<close>

theorem cycle_error_unreachable:
  "addTasks optss (new_TaskGraphBuilder deps seed) = Inr b \<Longrightarrow>
   build b \<noteq> Inl (CircularDependency tid)"
proof -
  assume a: "addTasks optss (new_TaskGraphBuilder deps seed) = Inr b"
  have "insertion_ordered (b_tasks (new_TaskGraphBuilder deps seed))"
    by (simp add: new_TaskGraphBuilder_def insertion_ordered.empty)
  from addTasks_ordered[OF this a] have ord: "insertion_ordered (b_tasks b)" .
  show ?thesis
  proof (cases "b_tasks b = []")
    case True
    then show ?thesis by (simp add: build_def)
  next
    case False
    from build_ok[OF False insertion_ordered_closed[OF ord] insertion_ordered_acyclic[OF ord]]
    show ?thesis by auto
  qed
qed

theorem cycle_error_unreachable_witness:
  "\<exists>b. addTasks [returning ''a'' [] Null, returning ''b'' [''a''] Null]
          (new_TaskGraphBuilder (Object []) (SeedValue Undefined)) = Inr b
       \<and> build b \<noteq> Inl (CircularDependency ''a'')"
proof -
  have "\<exists>b. addTasks [returning ''a'' [] Null, returning ''b'' [''a''] Null]
          (new_TaskGraphBuilder (Object []) (SeedValue Undefined)) = Inr b"
    by (simp add: addTask_def new_Task_def addDependency_def returning_def
        new_TaskGraphBuilder_def)
  then obtain b where b: "addTasks [returning ''a'' [] Null, returning ''b'' [''a''] Null]
          (new_TaskGraphBuilder (Object []) (SeedValue Undefined)) = Inr b" ..
  from cycle_error_unreachable[OF b] b show ?thesis by blast
qed
section \<open>Properties of Task.run\<close>

declare run_from.simps [simp del]

lemma executions_append [simp]: "executions (xs @ ys) = executions xs @ executions ys"
  by (induction xs rule: executions.induct) auto

lemma sleeps_append [simp]: "sleeps (xs @ ys) = sleeps xs @ sleeps ys"
  by (induction xs rule: sleeps.induct) auto

lemma statuses_append [simp]: "statuses (xs @ ys) = statuses xs @ statuses ys"
  by (induction xs rule: statuses.induct) auto

lemma handler_calls_append [simp]:
  "handler_calls (xs @ ys) = handler_calls xs @ handler_calls ys"
  by (induction xs rule: handler_calls.induct) auto

lemma handle_error_status [simp]:
  "handle_error (t\<lparr>task_status := st\<rparr>) err deps ctx = handle_error t err deps ctx"
  by (simp add: handle_error_def)



lemma attempted_status [simp]:
  "attempted (t\<lparr>task_status := st\<rparr>) deps ctx k = attempted t deps ctx k"
  by (simp add: attempted_def)

lemma printable_throws_status [simp]:
  "printable_throws (t\<lparr>task_status := st\<rparr>) deps ctx = printable_throws t deps ctx"
  by (simp add: printable_throws_def)

text \<open>
  Claim C3 at a failing input. A task with retry policy \<open>{maxRetries: 2, retryDelayMs:
  10}\<close> and an error handler, whose execute operation always throws a symbol: the
  constructor accepts it; \<open>Task.run\<close> invokes the execute operation once, then the
  template literal of the log line throws a \<open>TypeError\<close> in the \<open>catch\<close> block and
  the call rejects with it: there is no sleep and no second attempt, the error handler is
  not called, and the status is left \<open>running\<close>. The same task throwing the string
  \<open>boom\<close> is invoked three times with a sleep of \<open>10\<close> after the first and the
  second attempt, its error handler is called once, with the error made from the string,
  and its status is left \<open>failed\<close>.
\<close>

theorem Task_run_unprintable_throw:
  "new_Task (options (handled (retrying ''t'' 2 10 (Symbol ''boom''))))
     = Inr (handled (retrying ''t'' 2 10 (Symbol ''boom'')))
   \<and> Task_run (Object []) Map.empty (handled (retrying ''t'' 2 10 (Symbol ''boom''))) =
       (Inl (Thrown (ErrorObject ''Cannot convert a Symbol value to a string'')),
        (handled (retrying ''t'' 2 10 (Symbol ''boom'')))\<lparr>task_status := Running\<rparr>,
        [SetStatus Running, Execute 0])
   \<and> Task_run (Object []) Map.empty (handled (retrying ''t'' 2 10 (Str ''boom''))) =
       (Inl (Thrown (NonErrorThrow (Str ''boom''))),
        (handled (retrying ''t'' 2 10 (Str ''boom'')))\<lparr>task_status := Failed\<rparr>,
        [SetStatus Running, Execute 0, ConsoleError Retrying, Sleep (Number 10),
         SetStatus Running, Execute 1, ConsoleError Retrying, Sleep (Number 10),
         SetStatus Running, Execute 2, ConsoleError FailedAfterAttempts,
         CallErrorHandler (NonErrorThrow (Str ''boom'')), SetStatus Failed])"
  by (simp add: Task_run_def run_from.simps handle_error_def handled_def retrying_def
      throwing_def new_Task_def validateRetryPolicy_def)

lemma new_Task_policy: "new_Task opts = Inr t \<Longrightarrow> 0 \<le> maxRetries (task_retryPolicy t)"
proof -
  assume a: "new_Task opts = Inr t"
  show ?thesis
  proof (cases "retryPolicy opts")
    case None
    with a show ?thesis by (auto simp: new_Task_def)
  next
    case (Some p)
    with a have v: "validateRetryPolicy p = Inr ()"
      and t: "maxRetries (task_retryPolicy t) = integer_of (maxRetries p)"
      by (auto simp: new_Task_def split: sum.splits)
    from v have "\<not> negative (maxRetries p)"
      by (auto simp: validateRetryPolicy_def split: if_splits)
    then have "0 \<le> integer_of (maxRetries p)"
      by (cases "maxRetries p") simp_all
    with t show ?thesis by simp
  qed
qed






section \<open>Properties of the context\<close>

lemma merged_settle: "merged (Context_settle c) = merged c"
  by (cases "updateQueue c") (simp_all add: merged_def Context_settle_def)

lemma merged_update: "merged (Context_update u c) = merged c ++ u"
  by (simp add: merged_def Context_update_def)

lemma merged_steps: "merged (foldl context_step c evs) = foldl (++) (merged c) (issued evs)"
proof (induction evs arbitrary: c)
  case Nil
  then show ?case by simp
next
  case (Cons ev evs)
  then show ?case by (cases ev) (simp_all add: merged_settle merged_update)
qed

lemma settle_n_all:
  "length (updateQueue c) = n \<Longrightarrow>
   object (settle_n n c) = merged c \<and> updateQueue (settle_n n c) = []"
proof (induction n arbitrary: c)
  case 0
  then show ?case by (simp add: merged_def)
next
  case (Suc n)
  then obtain u rest where q: "updateQueue c = u # rest" by (cases "updateQueue c") auto
  with Suc.prems have "length (updateQueue (Context_settle c)) = n"
    by (simp add: Context_settle_def)
  from Suc.IH[OF this] show ?case by (simp add: merged_settle)
qed

lemma Context_await_merged:
  "object (Context_await c) = merged c" "updateQueue (Context_await c) = []"
  by (simp_all add: Context_await_def settle_n_all)

lemma foldl_map_add_untouched:
  "list_all (\<lambda>w. k \<notin> dom w) us \<Longrightarrow> foldl (++) m us k = m k"
  by (induction us arbitrary: m) (auto simp: map_add_def split: option.splits)

lemma foldl_map_add_keeps:
  "disjoint_keys us \<Longrightarrow> u \<in> set us \<Longrightarrow> u k = Some v \<Longrightarrow> foldl (++) m us k = Some v"
proof (induction us arbitrary: m)
  case Nil
  then show ?case by simp
next
  case (Cons a us)
  show ?case
  proof (cases "u = a")
    case True
    with Cons.prems have "list_all (\<lambda>w. k \<notin> dom w) us"
      by (auto simp: list_all_iff)
    from foldl_map_add_untouched[OF this, of "m ++ a"] True Cons.prems(3)
    show ?thesis by simp
  next
    case False
    with Cons.prems have "u \<in> set us" "disjoint_keys us" by auto
    from Cons.IH[OF this(2,1) Cons.prems(3)] show ?thesis by simp
  qed
qed

text \<open>
  Claim C4. Callers issue updates with pairwise distinct keys, in any order and
  interleaved in any way with the event loop (any list of \<open>Issue\<close> and \<open>Tick\<close>
  events, on a context in any state). Once the newest update is awaited no merge is
  pending, the object is the initial object merged with the pending and the issued
  updates one at a time in issue order, and it holds every key/value pair of every issued
  update.
\<close>

theorem concurrent_updates_all_applied:
  assumes "disjoint_keys (issued evs)"
  shows "updateQueue (Context_await (foldl context_step c evs)) = []
       \<and> object (Context_await (foldl context_step c evs))
           = foldl (++) (object c) (updateQueue c @ issued evs)
       \<and> (\<forall>u \<in> set (issued evs). \<forall>k v. u k = Some v \<longrightarrow>
             Context_value (Context_await (foldl context_step c evs)) k = Some v)"
proof -
  have obj: "object (Context_await (foldl context_step c evs))
           = foldl (++) (merged c) (issued evs)"
    by (simp add: Context_await_merged merged_steps)
  show ?thesis
    unfolding Context_value_def obj
    using foldl_map_add_keeps[OF assms]
    by (auto simp: Context_await_merged merged_def)
qed

theorem concurrent_updates_all_applied_witness:
  "disjoint_keys (issued [Issue [''a'' \<mapsto> Number 1], Issue [''b'' \<mapsto> Number 2], Tick,
                         Issue [''c'' \<mapsto> Number 3]])
   \<and> Context_value (Context_await (foldl context_step (new_Context Undefined)
        [Issue [''a'' \<mapsto> Number 1], Issue [''b'' \<mapsto> Number 2], Tick,
         Issue [''c'' \<mapsto> Number 3]])) ''b'' = Some (Number 2)"
proof -
  have h: "disjoint_keys (issued [Issue [''a'' \<mapsto> Number 1], Issue [''b'' \<mapsto> Number 2], Tick,
                         Issue [''c'' \<mapsto> Number 3]])"
    by simp
  from concurrent_updates_all_applied[OF h, of "new_Context Undefined"] h
  show ?thesis by simp
qed

section \<open>Properties of the runner\<close>

subsection \<open>Sets, maps and the scan\<close>

lemma canRun_iff:
  "canRun s t =
     (\<forall>d \<in> set (task_dependencies t). \<exists>dt. map_of (rs_tasks s) d = Some dt
         \<and> d \<in> set (completed s) \<and> task_status dt = Completed)"
  by (auto simp: canRun_def list_all_iff split: option.splits)

lemma canRun_readyTasks [simp]: "canRun (s\<lparr>readyTasks := x\<rparr>) t = canRun s t"
  by (simp add: canRun_iff)

lemma set_set_add [simp]: "set (set_add x xs) = insert x (set xs)"
  by (auto simp: set_add_def)

lemma distinct_set_add [simp]: "distinct (set_add x xs) = distinct xs"
  by (auto simp: set_add_def)

lemma length_set_add: "x \<notin> set xs \<Longrightarrow> length (set_add x xs) = Suc (length xs)"
  by (simp add: set_add_def)

lemma set_foldl_set_add:
  "set (foldl (\<lambda>acc x. set_add x acc) acc xs) = set acc \<union> set xs"
  by (induction xs arbitrary: acc) auto

lemma distinct_foldl_set_add:
  "distinct acc \<Longrightarrow> distinct (foldl (\<lambda>acc x. set_add x acc) acc xs)"
  by (induction xs arbitrary: acc) auto

lemma set_new_Set [simp]: "set (new_Set xs) = set xs"
  by (simp add: new_Set_def set_foldl_set_add)

lemma distinct_new_Set [simp]: "distinct (new_Set xs)"
  by (simp add: new_Set_def distinct_foldl_set_add)

lemma length_update_key:
  "k \<in> fst ` set al \<Longrightarrow> length (AList.update k v al) = length al"
  by (induction al) auto

lemma length_update_fresh:
  "k \<notin> fst ` set al \<Longrightarrow> length (AList.update k v al) = Suc (length al)"
  by (induction al) auto

lemma keys_update_key:
  "k \<in> fst ` set al \<Longrightarrow> fst ` set (AList.update k v al) = fst ` set al"
  by (auto simp: dom_update)

lemma keys_delete: "fst ` set (AList.delete k al) = fst ` set al - {k}"
  by (induction al) auto

lemma set_update_entry:
  "(k, v) \<in> set (AList.update k' v' al) \<Longrightarrow> (k, v) \<in> set al \<or> (k = k' \<and> v = v')"
  by (induction al) (auto split: if_splits)

lemma set_delete_entry: "(k, v) \<in> set (AList.delete k' al) \<Longrightarrow> (k, v) \<in> set al \<and> k \<noteq> k'"
  by (induction al) (auto split: if_splits)

lemma sum_pieces_update:
  "distinct (map fst al) \<Longrightarrow> (k, p) \<in> set al \<Longrightarrow>
   sum_list (map (\<lambda>(tid, p). pieces p) (AList.update k p' al)) + pieces p
     = sum_list (map (\<lambda>(tid, p). pieces p) al) + pieces p'"
proof (induction al)
  case Nil
  then show ?case by simp
next
  case (Cons a al)
  obtain k0 p0 where a: "a = (k0, p0)" by (cases a)
  show ?case
  proof (cases "k0 = k")
    case True
    with Cons.prems a have "p0 = p" by (auto simp: image_iff)
    with True a show ?thesis by simp
  next
    case False
    with Cons a show ?thesis by auto
  qed
qed

lemma rescan_loop_fields [simp]:
  "rs_tasks (rescan_loop ts s) = rs_tasks s"
  "rs_context (rescan_loop ts s) = rs_context s"
  "completed (rescan_loop ts s) = completed s"
  "running (rescan_loop ts s) = running s"
  "loop (rescan_loop ts s) = loop s"
  "applied (rescan_loop ts s) = applied s"
  "events (rescan_loop ts s) = events s"
  by (induction ts s rule: rescan_loop.induct) auto

lemma rescan_loop_ready:
  "set (readyTasks (rescan_loop ts s)) =
     set (readyTasks s) \<union>
       {tid. \<exists>t. (tid, t) \<in> set ts \<and> tid \<notin> set (completed s)
              \<and> tid \<notin> fst ` set (running s) \<and> canRun s t}"
  by (induction ts s rule: rescan_loop.induct) auto

lemma rescan_loop_distinct:
  "distinct (readyTasks (rescan_loop ts s)) = distinct (readyTasks s)"
  by (induction ts s rule: rescan_loop.induct) auto

text \<open>
  The bound behind the second number of \<open>remaining\<close>: completed and running tasks are
  different tasks of the map.
\<close>

lemma rs_inv_count:
  assumes "rs_inv s"
  shows "length (completed s) + length (running s) \<le> length (rs_tasks s)"
proof -
  from assms have d: "distinct (map fst (rs_tasks s))" "distinct (completed s)"
    "distinct (map fst (running s))"
    and sub: "set (completed s) \<subseteq> fst ` set (rs_tasks s)"
      "fst ` set (running s) \<subseteq> fst ` set (rs_tasks s)"
    and dis: "fst ` set (running s) \<inter> set (completed s) = {}"
    unfolding rs_inv_def by simp_all
  have "length (completed s) = card (set (completed s))"
    using d(2) by (simp add: distinct_card)
  moreover have "length (running s) = card (set (map fst (running s)))"
    using distinct_card[OF d(3)] by simp
  ultimately have "length (completed s) + length (running s)
      = card (set (completed s)) + card (set (map fst (running s)))"
    by simp
  also have "\<dots> = card (set (completed s) \<union> set (map fst (running s)))"
    using dis by (subst card_Un_disjoint) auto
  also have "\<dots> \<le> card (set (map fst (rs_tasks s)))"
    using sub by (intro card_mono) auto
  also have "\<dots> = length (rs_tasks s)"
    using distinct_card[OF d(1)] by simp
  finally show ?thesis .
qed

subsection \<open>The pieces of the run, one by one\<close>

lemma Task_start_static [simp]:
  "options (Task_start t) = options t"
  "task_dependencies (Task_start t) = task_dependencies t"
  "task_retryPolicy (Task_start t) = task_retryPolicy t"
  by (simp_all add: Task_start_def)


text \<open>What \<open>start_tasks\<close> does to each component of the state.\<close>

lemma start_tasks_Cons:
  assumes "start_tasks (k # ks) s = Inr s1"
  shows "\<exists>t. map_of (rs_tasks s) k = Some t
      \<and> start_tasks ks
           (s\<lparr>readyTasks := removeAll k (readyTasks s),
              rs_tasks := AList.update k (Task_start t) (rs_tasks s),
              running := AList.update k (Started (Context_value (rs_context s))) (running s)\<rparr>)
         = Inr s1"
  using assms by (cases "map_of (rs_tasks s) k") simp_all

lemma start_tasks_ok:
  "set ks \<subseteq> fst ` set (rs_tasks s) \<Longrightarrow> \<exists>s1. start_tasks ks s = Inr s1"
proof (induction ks arbitrary: s)
  case Nil
  then show ?case by simp
next
  case (Cons k ks)
  then obtain t where t: "map_of (rs_tasks s) k = Some t"
    by (cases "map_of (rs_tasks s) k") (auto simp: map_of_eq_None_keys)
  then have key: "k \<in> fst ` set (rs_tasks s)" by (rule map_of_Some_key)
  let ?s = "s\<lparr>readyTasks := removeAll k (readyTasks s),
               rs_tasks := AList.update k (Task_start t) (rs_tasks s),
               running := AList.update k (Started (Context_value (rs_context s))) (running s)\<rparr>"
  from Cons.prems key have "set ks \<subseteq> fst ` set (rs_tasks ?s)"
    by (simp add: keys_update_key)
  from Cons.IH[OF this] t show ?case by simp
qed

lemma start_tasks_same:
  "start_tasks ks s = Inr s1 \<Longrightarrow>
   rs_context s1 = rs_context s \<and> completed s1 = completed s \<and> events s1 = events s
   \<and> loop s1 = loop s \<and> applied s1 = applied s"
proof (induction ks arbitrary: s)
  case Nil
  then show ?case by simp
next
  case (Cons k ks)
  from start_tasks_Cons[OF Cons.prems] obtain t where
    r: "start_tasks ks
           (s\<lparr>readyTasks := removeAll k (readyTasks s),
              rs_tasks := AList.update k (Task_start t) (rs_tasks s),
              running := AList.update k (Started (Context_value (rs_context s))) (running s)\<rparr>)
         = Inr s1" by blast
  from Cons.IH[OF r] show ?case by simp
qed

lemma start_tasks_ready:
  "start_tasks ks s = Inr s1 \<Longrightarrow> readyTasks s1 = filter (\<lambda>k. k \<notin> set ks) (readyTasks s)"
proof (induction ks arbitrary: s)
  case Nil
  then show ?case by simp
next
  case (Cons k ks)
  from start_tasks_Cons[OF Cons.prems] obtain t where
    r: "start_tasks ks
           (s\<lparr>readyTasks := removeAll k (readyTasks s),
              rs_tasks := AList.update k (Task_start t) (rs_tasks s),
              running := AList.update k (Started (Context_value (rs_context s))) (running s)\<rparr>)
         = Inr s1" by blast
  from Cons.IH[OF r] show ?case
    by (auto simp: removeAll_filter_not_eq intro!: filter_cong)
qed

lemma start_tasks_keys:
  "start_tasks ks s = Inr s1 \<Longrightarrow>
   fst ` set (rs_tasks s1) = fst ` set (rs_tasks s) \<and> length (rs_tasks s1) = length (rs_tasks s)
   \<and> (distinct (map fst (rs_tasks s)) \<longrightarrow> distinct (map fst (rs_tasks s1)))"
proof (induction ks arbitrary: s)
  case Nil
  then show ?case by simp
next
  case (Cons k ks)
  from start_tasks_Cons[OF Cons.prems] obtain t where t: "map_of (rs_tasks s) k = Some t" and
    r: "start_tasks ks
           (s\<lparr>readyTasks := removeAll k (readyTasks s),
              rs_tasks := AList.update k (Task_start t) (rs_tasks s),
              running := AList.update k (Started (Context_value (rs_context s))) (running s)\<rparr>)
         = Inr s1" by blast
  from t have key: "k \<in> fst ` set (rs_tasks s)" by (rule map_of_Some_key)
  from Cons.IH[OF r] key show ?case
    by (simp add: keys_update_key length_update_key distinct_update)
qed



lemma start_tasks_running:
  "start_tasks ks s = Inr s1 \<Longrightarrow>
   fst ` set (running s1) = fst ` set (running s) \<union> set ks
   \<and> (distinct (map fst (running s)) \<longrightarrow> distinct (map fst (running s1)))"
proof (induction ks arbitrary: s)
  case Nil
  then show ?case by simp
next
  case (Cons k ks)
  from start_tasks_Cons[OF Cons.prems] obtain t where
    r: "start_tasks ks
           (s\<lparr>readyTasks := removeAll k (readyTasks s),
              rs_tasks := AList.update k (Task_start t) (rs_tasks s),
              running := AList.update k (Started (Context_value (rs_context s))) (running s)\<rparr>)
         = Inr s1" by blast
  from Cons.IH[OF r] show ?case
    by (auto simp: dom_update distinct_update)
qed

lemma start_tasks_progress:
  "start_tasks ks s = Inr s1 \<Longrightarrow> (k, p) \<in> set (running s1) \<Longrightarrow>
   (k, p) \<in> set (running s) \<or> (k \<in> set ks \<and> p = Started (Context_value (rs_context s)))"
proof (induction ks arbitrary: s)
  case Nil
  then show ?case by simp
next
  case (Cons j ks)
  from start_tasks_Cons[OF Cons.prems(1)] obtain t where
    r: "start_tasks ks
           (s\<lparr>readyTasks := removeAll j (readyTasks s),
              rs_tasks := AList.update j (Task_start t) (rs_tasks s),
              running := AList.update j (Started (Context_value (rs_context s))) (running s)\<rparr>)
         = Inr s1" by blast
  from Cons.IH[OF r Cons.prems(2)]
  have "(k, p) \<in> set (AList.update j (Started (Context_value (rs_context s))) (running s))
      \<or> (k \<in> set ks \<and> p = Started (Context_value (rs_context s)))" by simp
  then show ?case by (auto dest: set_update_entry)
qed

lemma length_running_start:
  "distinct ks \<Longrightarrow> set ks \<inter> fst ` set (running s) = {} \<Longrightarrow>
   start_tasks ks s = Inr s1 \<Longrightarrow> length (running s1) = length (running s) + length ks"
proof (induction ks arbitrary: s)
  case Nil
  then show ?case by simp
next
  case (Cons k ks)
  from start_tasks_Cons[OF Cons.prems(3)] obtain t where
    r: "start_tasks ks
           (s\<lparr>readyTasks := removeAll k (readyTasks s),
              rs_tasks := AList.update k (Task_start t) (rs_tasks s),
              running := AList.update k (Started (Context_value (rs_context s))) (running s)\<rparr>)
         = Inr s1" by blast
  let ?s = "s\<lparr>readyTasks := removeAll k (readyTasks s),
               rs_tasks := AList.update k (Task_start t) (rs_tasks s),
               running := AList.update k (Started (Context_value (rs_context s))) (running s)\<rparr>"
  from Cons.prems(1) have d: "distinct ks" "k \<notin> set ks" by simp_all
  from Cons.prems(2) have nk: "k \<notin> fst ` set (running s)" by simp
  from Cons.prems(2) d(2) have dis: "set ks \<inter> fst ` set (running ?s) = {}"
    by (auto simp: dom_update)
  from Cons.IH[OF d(1) dis r] nk show ?case
    by (simp add: length_update_fresh)
qed

lemma rs_invI:
  assumes "distinct (map fst (rs_tasks s))"
    and "set (completed s) \<subseteq> fst ` set (rs_tasks s)" and "distinct (completed s)"
    and "fst ` set (running s) \<subseteq> fst ` set (rs_tasks s)" and "distinct (map fst (running s))"
    and "set (readyTasks s) \<subseteq> fst ` set (rs_tasks s)" and "distinct (readyTasks s)"
    and "fst ` set (running s) \<inter> set (completed s) = {}"
    and "set (readyTasks s) \<inter> set (completed s) = {}"
    and "set (readyTasks s) \<inter> fst ` set (running s) = {}"
    and "\<And>tid n. (tid, Updating n) \<in> set (running s)
            \<Longrightarrow> n \<le> applied s + length (updateQueue (rs_context s))"
    and "loop s = Awaiting \<Longrightarrow> running s \<noteq> []"
  shows "rs_inv s"
  unfolding rs_inv_def using assms by simp

lemma rs_invD:
  assumes "rs_inv s"
  shows "distinct (map fst (rs_tasks s))"
    and "set (completed s) \<subseteq> fst ` set (rs_tasks s)" and "distinct (completed s)"
    and "fst ` set (running s) \<subseteq> fst ` set (rs_tasks s)" and "distinct (map fst (running s))"
    and "set (readyTasks s) \<subseteq> fst ` set (rs_tasks s)" and "distinct (readyTasks s)"
    and "fst ` set (running s) \<inter> set (completed s) = {}"
    and "set (readyTasks s) \<inter> set (completed s) = {}"
    and "set (readyTasks s) \<inter> fst ` set (running s) = {}"
    and "\<And>tid n. (tid, Updating n) \<in> set (running s)
            \<Longrightarrow> n \<le> applied s + length (updateQueue (rs_context s))"
    and "loop s = Awaiting \<Longrightarrow> running s \<noteq> []"
  using assms unfolding rs_inv_def by simp_all

text \<open>An iteration of the loop of a state that satisfies the invariant.\<close>

lemma loop_iteration_cases:
  assumes "rs_inv s" "loop_iteration s = Inr s'"
  shows "s' = s\<lparr>loop := Exited\<rparr>
       \<or> (\<exists>s1. start_tasks (readyTasks s) s = Inr s1
              \<and> (s' = s1\<lparr>loop := Exited\<rparr> \<or> (s' = s1\<lparr>loop := Awaiting\<rparr> \<and> running s1 \<noteq> [])))"
  using assms(2) unfolding loop_iteration_def
  by (auto split: if_splits sum.splits)

lemma loop_iteration_ok:
  assumes "rs_inv s"
  shows "\<exists>s'. loop_iteration s = Inr s'"
proof -
  from start_tasks_ok[OF rs_invD(6)[OF assms]] obtain s1 where
    "start_tasks (readyTasks s) s = Inr s1" by blast
  then show ?thesis by (simp add: loop_iteration_def)
qed

lemma started_inv:
  assumes inv: "rs_inv s" and st: "start_tasks (readyTasks s) s = Inr s1"
    and l: "l = Awaiting \<Longrightarrow> running s1 \<noteq> []"
  shows "rs_inv (s1\<lparr>loop := l\<rparr>)"
proof (rule rs_invI)
  note same = start_tasks_same[OF st]
  note keys = start_tasks_keys[OF st]
  note run = start_tasks_running[OF st]
  have ready: "readyTasks s1 = []"
    unfolding start_tasks_ready[OF st] by simp
  show "distinct (map fst (rs_tasks (s1\<lparr>loop := l\<rparr>)))"
    using keys rs_invD(1)[OF inv] by simp
  show "set (completed (s1\<lparr>loop := l\<rparr>)) \<subseteq> fst ` set (rs_tasks (s1\<lparr>loop := l\<rparr>))"
    using keys same rs_invD(2)[OF inv] by simp
  show "distinct (completed (s1\<lparr>loop := l\<rparr>))"
    using same rs_invD(3)[OF inv] by simp
  show "fst ` set (running (s1\<lparr>loop := l\<rparr>)) \<subseteq> fst ` set (rs_tasks (s1\<lparr>loop := l\<rparr>))"
    using keys run rs_invD(4,6)[OF inv] by simp
  show "distinct (map fst (running (s1\<lparr>loop := l\<rparr>)))"
    using run rs_invD(5)[OF inv] by simp
  show "set (readyTasks (s1\<lparr>loop := l\<rparr>)) \<subseteq> fst ` set (rs_tasks (s1\<lparr>loop := l\<rparr>))"
    using ready by simp
  show "distinct (readyTasks (s1\<lparr>loop := l\<rparr>))"
    using ready by simp
  show "fst ` set (running (s1\<lparr>loop := l\<rparr>)) \<inter> set (completed (s1\<lparr>loop := l\<rparr>)) = {}"
    using run same rs_invD(8,9)[OF inv] by auto
  show "set (readyTasks (s1\<lparr>loop := l\<rparr>)) \<inter> set (completed (s1\<lparr>loop := l\<rparr>)) = {}"
    using ready by simp
  show "set (readyTasks (s1\<lparr>loop := l\<rparr>)) \<inter> fst ` set (running (s1\<lparr>loop := l\<rparr>)) = {}"
    using ready by simp
  show "n \<le> applied (s1\<lparr>loop := l\<rparr>) + length (updateQueue (rs_context (s1\<lparr>loop := l\<rparr>)))"
    if "(tid, Updating n) \<in> set (running (s1\<lparr>loop := l\<rparr>))" for tid n
  proof -
    from that start_tasks_progress[OF st, of tid "Updating n"]
    have "(tid, Updating n) \<in> set (running s)" by auto
    from rs_invD(11)[OF inv this] same show ?thesis by simp
  qed
  show "running (s1\<lparr>loop := l\<rparr>) \<noteq> []" if "loop (s1\<lparr>loop := l\<rparr>) = Awaiting"
    using that l by simp
qed

lemma loop_field_inv:
  assumes "rs_inv s" "l \<noteq> Awaiting"
  shows "rs_inv (s\<lparr>loop := l\<rparr>)"
  using assms unfolding rs_inv_def by simp

lemma resume_inv:
  assumes "rs_inv s" "loop_iteration s = Inr s'"
  shows "rs_inv s'"
proof -
  from loop_iteration_cases[OF assms] consider
    "s' = s\<lparr>loop := Exited\<rparr>"
    | s1 where "start_tasks (readyTasks s) s = Inr s1" "s' = s1\<lparr>loop := Exited\<rparr>"
    | s1 where "start_tasks (readyTasks s) s = Inr s1" "s' = s1\<lparr>loop := Awaiting\<rparr>"
        "running s1 \<noteq> []"
    by blast
  then show ?thesis
  proof cases
    case 1
    with assms(1) show ?thesis by (simp add: loop_field_inv)
  next
    case 2
    from started_inv[OF assms(1) 2(1), of Exited] 2(2) show ?thesis by simp
  next
    case 3
    from started_inv[OF assms(1) 3(1), of Awaiting] 3(2,3) show ?thesis by simp
  qed
qed

lemma merge_inv:
  assumes "rs_inv s" "updateQueue (rs_context s) \<noteq> []"
  shows "rs_inv (apply_merge s)"
proof -
  from assms(2) obtain u rest where q: "updateQueue (rs_context s) = u # rest"
    by (cases "updateQueue (rs_context s)") auto
  have e: "apply_merge s =
      s\<lparr>rs_context := (rs_context s)\<lparr>object := object (rs_context s) ++ u, updateQueue := rest\<rparr>,
        applied := applied s + 1\<rparr>"
    using q by (simp add: apply_merge_def Context_settle_def)
  show ?thesis
    unfolding e using assms(1) q unfolding rs_inv_def by simp
qed

text \<open>What \<open>settle_run\<close> does, for a task of the map.\<close>

lemma settle_run_effect:
  assumes "map_of (rs_tasks s) tid = Some t" "Task_run deps snapshot t = (res, t', evs)"
  shows "settle_run deps tid snapshot s =
     Inr (s\<lparr>rs_tasks := AList.update tid t' (rs_tasks s),
            events := events s @ map (Pair tid) evs,
            running :=
              AList.update tid (case res of Inr result \<Rightarrow> Returned result | Inl e \<Rightarrow> Rejected)
                (running s)\<rparr>)"
  using assms by (simp add: settle_run_def)

lemma inv_events [simp]: "rs_inv (s\<lparr>events := e\<rparr>) = rs_inv s"
  by (simp add: rs_inv_def)

lemma inv_tasks:
  assumes "rs_inv s" "tid \<in> fst ` set (rs_tasks s)"
  shows "rs_inv (s\<lparr>rs_tasks := AList.update tid t' (rs_tasks s)\<rparr>)"
  using assms unfolding rs_inv_def
  by (simp add: keys_update_key distinct_update)

lemma inv_context_update:
  assumes "rs_inv s"
  shows "rs_inv (s\<lparr>rs_context := Context_update u (rs_context s)\<rparr>)"
  using assms unfolding rs_inv_def
  by (auto simp: Context_update_def le_SucI)

lemma inv_running:
  assumes inv: "rs_inv s" and r: "tid \<in> fst ` set (running s)"
    and p: "\<And>n. p = Updating n \<Longrightarrow> n \<le> applied s + length (updateQueue (rs_context s))"
  shows "rs_inv (s\<lparr>running := AList.update tid p (running s)\<rparr>)"
proof (rule rs_invI)
  let ?s = "s\<lparr>running := AList.update tid p (running s)\<rparr>"
  have keys: "fst ` set (running ?s) = fst ` set (running s)"
    using r by (simp add: keys_update_key)
  show "distinct (map fst (rs_tasks ?s))" using rs_invD(1)[OF inv] by simp
  show "set (completed ?s) \<subseteq> fst ` set (rs_tasks ?s)" using rs_invD(2)[OF inv] by simp
  show "distinct (completed ?s)" using rs_invD(3)[OF inv] by simp
  show "fst ` set (running ?s) \<subseteq> fst ` set (rs_tasks ?s)"
    unfolding keys using rs_invD(4)[OF inv] by simp
  show "distinct (map fst (running ?s))"
    using rs_invD(5)[OF inv] by (simp add: distinct_update)
  show "set (readyTasks ?s) \<subseteq> fst ` set (rs_tasks ?s)" using rs_invD(6)[OF inv] by simp
  show "distinct (readyTasks ?s)" using rs_invD(7)[OF inv] by simp
  show "fst ` set (running ?s) \<inter> set (completed ?s) = {}"
    unfolding keys using rs_invD(8)[OF inv] by simp
  show "set (readyTasks ?s) \<inter> set (completed ?s) = {}" using rs_invD(9)[OF inv] by simp
  show "set (readyTasks ?s) \<inter> fst ` set (running ?s) = {}"
    unfolding keys using rs_invD(10)[OF inv] by simp
  show "n \<le> applied ?s + length (updateQueue (rs_context ?s))"
    if "(k, Updating n) \<in> set (running ?s)" for k n
  proof -
    from that have "(k, Updating n) \<in> set (AList.update tid p (running s))" by simp
    from set_update_entry[OF this] have "(k, Updating n) \<in> set (running s) \<or> p = Updating n"
      by blast
    then show ?thesis
    proof
      assume "(k, Updating n) \<in> set (running s)"
      from rs_invD(11)[OF inv this] show ?thesis by simp
    next
      assume "p = Updating n"
      from p[OF this] show ?thesis by simp
    qed
  qed
  show "running ?s \<noteq> []" if "loop ?s = Awaiting"
    using r by (cases "running s") auto
qed

lemma settle_inv:
  assumes inv: "rs_inv s" and run: "(tid, Started snapshot) \<in> set (running s)"
    and res: "settle_run deps tid snapshot s = Inr s'"
  shows "rs_inv s'"
proof -
  from run have r: "tid \<in> fst ` set (running s)" by force
  with rs_invD(4)[OF inv] have key: "tid \<in> fst ` set (rs_tasks s)" by blast
  then obtain t where t: "map_of (rs_tasks s) tid = Some t"
    by (cases "map_of (rs_tasks s) tid") (auto simp: map_of_eq_None_keys)
  obtain r t' evs where tr: "Task_run deps snapshot t = (r, t', evs)"
    by (metis prod_cases3)
  let ?p = "case r of Inr result \<Rightarrow> Returned result | Inl e \<Rightarrow> Rejected"
  let ?s2 = "s\<lparr>rs_tasks := AList.update tid t' (rs_tasks s),
               events := events s @ map (Pair tid) evs\<rparr>"
  from settle_run_effect[OF t tr] res have s': "s' =
      ?s2\<lparr>running := AList.update tid ?p (running ?s2)\<rparr>" by simp
  have np: "\<And>n. ?p \<noteq> Updating n" by (cases r) simp_all
  have i2: "rs_inv ?s2" using inv_tasks[OF inv key] by simp
  have r2: "tid \<in> fst ` set (running ?s2)" using r by simp
  show ?thesis
    unfolding s' using i2 r2
  proof (rule inv_running)
    fix n assume "?p = Updating n"
    with np show "n \<le> applied ?s2 + length (updateQueue (rs_context ?s2))" by blast
  qed
qed

lemma update_inv:
  assumes inv: "rs_inv s" and run: "(tid, Returned result) \<in> set (running s)"
  shows "rs_inv (call_update tid result s)"
proof -
  from run have r: "tid \<in> fst ` set (running s)" by force
  let ?n = "applied s + length (updateQueue (rs_context s)) + 1"
  let ?s2 = "s\<lparr>rs_context := Context_update [tid \<mapsto> result] (rs_context s)\<rparr>"
  have e: "call_update tid result s = ?s2\<lparr>running := AList.update tid (Updating ?n) (running ?s2)\<rparr>"
    by (simp add: call_update_def)
  have i2: "rs_inv ?s2" using inv by (rule inv_context_update)
  have r2: "tid \<in> fst ` set (running ?s2)" using r by simp
  show ?thesis
    unfolding e using i2 r2
  proof (rule inv_running)
    fix n assume "Updating ?n = Updating n"
    then show "n \<le> applied ?s2 + length (updateQueue (rs_context ?s2))"
      by (auto simp: Context_update_def)
  qed
qed

text \<open>What \<open>finish_task\<close> does to each component of the state.\<close>

lemma finish_task_fields:
  "rs_tasks (finish_task tid s) = rs_tasks s"
  "rs_context (finish_task tid s) = rs_context s"
  "events (finish_task tid s) = events s"
  "applied (finish_task tid s) = applied s"
  "completed (finish_task tid s) = set_add tid (completed s)"
  "running (finish_task tid s) = AList.delete tid (running s)"
  "loop (finish_task tid s) = (case loop s of Awaiting \<Rightarrow> Woken | l \<Rightarrow> l)"
  "distinct (readyTasks (finish_task tid s)) = distinct (readyTasks s)"
  "set (readyTasks (finish_task tid s)) =
     set (readyTasks s) \<union>
       {k. \<exists>u. (k, u) \<in> set (rs_tasks s) \<and> k \<notin> set (set_add tid (completed s))
              \<and> k \<notin> fst ` set (AList.delete tid (running s))
              \<and> canRun (s\<lparr>completed := set_add tid (completed s)\<rparr>) u}"
  by (simp_all add: finish_task_def Let_def rescan_loop_ready rescan_loop_distinct canRun_iff)

lemma finish_inv:
  assumes inv: "rs_inv s" and run: "(tid, p) \<in> set (running s)"
  shows "rs_inv (finish_task tid s)"
proof (rule rs_invI)
  note f = finish_task_fields[of tid s]
  from run have r: "tid \<in> fst ` set (running s)" by force
  with rs_invD(4)[OF inv] have key: "tid \<in> fst ` set (rs_tasks s)" by blast
  from r rs_invD(10)[OF inv] have nr: "tid \<notin> set (readyTasks s)" by blast
  have new: "k \<in> fst ` set (rs_tasks s) \<and> k \<noteq> tid \<and> k \<notin> set (completed s)
      \<and> k \<notin> fst ` set (running s) - {tid}"
    if "k \<in> set (readyTasks (finish_task tid s))" "k \<notin> set (readyTasks s)" for k
  proof -
    from that obtain u where u: "(k, u) \<in> set (rs_tasks s)"
      "k \<notin> set (set_add tid (completed s))"
      "k \<notin> fst ` set (AList.delete tid (running s))"
      unfolding f(9) by auto
    from u(1) have "k \<in> fst ` set (rs_tasks s)" by force
    with u(2,3) show ?thesis
      by (auto simp: map_of_eq_None_keys keys_delete)
  qed
  show "distinct (map fst (rs_tasks (finish_task tid s)))"
    unfolding f using rs_invD(1)[OF inv] .
  show "set (completed (finish_task tid s)) \<subseteq> fst ` set (rs_tasks (finish_task tid s))"
    unfolding f using rs_invD(2)[OF inv] key by simp
  show "distinct (completed (finish_task tid s))"
    unfolding f using rs_invD(3)[OF inv] by simp
  show "fst ` set (running (finish_task tid s)) \<subseteq> fst ` set (rs_tasks (finish_task tid s))"
    unfolding f keys_delete using rs_invD(4)[OF inv] by blast
  show "distinct (map fst (running (finish_task tid s)))"
    unfolding f using rs_invD(5)[OF inv] by (rule distinct_delete)
  show "set (readyTasks (finish_task tid s)) \<subseteq> fst ` set (rs_tasks (finish_task tid s))"
    unfolding f(1) using rs_invD(6)[OF inv] new by blast
  show "distinct (readyTasks (finish_task tid s))"
    unfolding f(8) using rs_invD(7)[OF inv] .
  show "fst ` set (running (finish_task tid s)) \<inter> set (completed (finish_task tid s)) = {}"
    unfolding f keys_delete using rs_invD(8)[OF inv] by auto
  show "set (readyTasks (finish_task tid s)) \<inter> set (completed (finish_task tid s)) = {}"
  proof -
    have "\<And>k. k \<in> set (readyTasks (finish_task tid s)) \<Longrightarrow> k \<noteq> tid \<and> k \<notin> set (completed s)"
      using new rs_invD(9)[OF inv] nr by blast
    then show ?thesis unfolding f(5) by auto
  qed
  show "set (readyTasks (finish_task tid s)) \<inter> fst ` set (running (finish_task tid s)) = {}"
  proof -
    have "\<And>k. k \<in> set (readyTasks (finish_task tid s)) \<Longrightarrow> k \<notin> fst ` set (running s) - {tid}"
      using new rs_invD(10)[OF inv] by blast
    then show ?thesis unfolding f(6) keys_delete by blast
  qed
  show "n \<le> applied (finish_task tid s) + length (updateQueue (rs_context (finish_task tid s)))"
    if "(k, Updating n) \<in> set (running (finish_task tid s))" for k n
  proof -
    from that have "(k, Updating n) \<in> set (running s)"
      unfolding f(6) by (auto dest: set_delete_entry)
    from rs_invD(11)[OF inv this] show ?thesis unfolding f .
  qed
  show "running (finish_task tid s) \<noteq> []" if "loop (finish_task tid s) = Awaiting"
    using that unfolding f(7) by (cases "loop s") simp_all
qed

text \<open>Every action that does something keeps the invariant.\<close>

lemma move_inv:
  assumes "move deps s s'" "rs_inv s"
  shows "rs_inv s'"
  using assms
proof (cases rule: move.cases)
  case resume
  with assms(2) show ?thesis by (auto intro: resume_inv)
next
  case merge
  with assms(2) show ?thesis by (auto intro: merge_inv)
next
  case (settle tid snapshot)
  with assms(2) show ?thesis by (auto intro: settle_inv)
next
  case (update tid result)
  with assms(2) show ?thesis by (auto intro: update_inv)
next
  case (finish tid p)
  with assms(2) show ?thesis by (auto intro: finish_inv)
qed

subsection \<open>Every run ends\<close>

lemma fewer1:
  "length (rs_tasks s') - length (completed s') < length (rs_tasks s) - length (completed s)
   \<Longrightarrow> (s', s) \<in> measures remaining"
  by (simp add: remaining_def)

lemma fewer2:
  "length (rs_tasks s') = length (rs_tasks s) \<Longrightarrow> length (completed s') = length (completed s)
   \<Longrightarrow> length (rs_tasks s) - length (completed s) - length (running s')
       < length (rs_tasks s) - length (completed s) - length (running s)
   \<Longrightarrow> (s', s) \<in> measures remaining"
  by (simp add: remaining_def)

lemma fewer3:
  "length (rs_tasks s') = length (rs_tasks s) \<Longrightarrow> length (completed s') = length (completed s)
   \<Longrightarrow> length (running s') = length (running s)
   \<Longrightarrow> sum_list (map (\<lambda>(tid, p). pieces p) (running s'))
       < sum_list (map (\<lambda>(tid, p). pieces p) (running s))
   \<Longrightarrow> (s', s) \<in> measures remaining"
  by (simp add: remaining_def)

lemma fewer4:
  "rs_tasks s' = rs_tasks s \<Longrightarrow> completed s' = completed s \<Longrightarrow> running s' = running s
   \<Longrightarrow> length (updateQueue (rs_context s')) < length (updateQueue (rs_context s))
   \<Longrightarrow> (s', s) \<in> measures remaining"
  by (simp add: remaining_def)

lemma fewer5:
  "rs_tasks s' = rs_tasks s \<Longrightarrow> completed s' = completed s \<Longrightarrow> running s' = running s
   \<Longrightarrow> rs_context s' = rs_context s \<Longrightarrow> loop s = Woken \<Longrightarrow> loop s' \<noteq> Woken
   \<Longrightarrow> (s', s) \<in> measures remaining"
  by (simp add: remaining_def)

lemma resume_fewer:
  assumes inv: "rs_inv s" and w: "loop s = Woken" and it: "loop_iteration s = Inr s'"
  shows "(s', s) \<in> measures remaining"
proof -
  have started: "(s1\<lparr>loop := l\<rparr>, s) \<in> measures remaining"
    if st: "start_tasks (readyTasks s) s = Inr s1" and l: "l \<noteq> Woken"
      and i: "rs_inv (s1\<lparr>loop := l\<rparr>)" for s1 l
  proof (cases "readyTasks s = []")
    case True
    with st have "s1 = s" by simp
    with w l show ?thesis by (intro fewer5) simp_all
  next
    case False
    note same = start_tasks_same[OF st]
    note keys = start_tasks_keys[OF st]
    have len: "length (running s1) = length (running s) + length (readyTasks s)"
      using rs_invD(7)[OF inv] rs_invD(10)[OF inv] st by (rule length_running_start)
    from False have pos: "0 < length (readyTasks s)" by simp
    from rs_inv_count[OF i] same keys len
    have "length (completed s) + (length (running s) + length (readyTasks s))
        \<le> length (rs_tasks s)" by simp
    with pos have "length (rs_tasks s) - length (completed s) - length (running s1)
        < length (rs_tasks s) - length (completed s) - length (running s)"
      unfolding len by linarith
    with same keys show ?thesis by (intro fewer2) simp_all
  qed
  from loop_iteration_cases[OF inv it] consider
    "s' = s\<lparr>loop := Exited\<rparr>"
    | s1 where "start_tasks (readyTasks s) s = Inr s1" "s' = s1\<lparr>loop := Exited\<rparr>"
    | s1 where "start_tasks (readyTasks s) s = Inr s1" "s' = s1\<lparr>loop := Awaiting\<rparr>"
    by blast
  then show ?thesis
  proof cases
    case 1
    with w show ?thesis by (intro fewer5) simp_all
  next
    case 2
    from resume_inv[OF inv it] 2(2) have "rs_inv (s1\<lparr>loop := Exited\<rparr>)" by simp
    from started[OF 2(1) _ this] 2(2) show ?thesis by simp
  next
    case 3
    from resume_inv[OF inv it] 3(2) have "rs_inv (s1\<lparr>loop := Awaiting\<rparr>)" by simp
    from started[OF 3(1) _ this] 3(2) show ?thesis by simp
  qed
qed

lemma merge_fewer:
  assumes "updateQueue (rs_context s) \<noteq> []"
  shows "(apply_merge s, s) \<in> measures remaining"
proof -
  from assms obtain u rest where q: "updateQueue (rs_context s) = u # rest"
    by (cases "updateQueue (rs_context s)") auto
  then show ?thesis
    by (intro fewer4) (simp_all add: apply_merge_def Context_settle_def)
qed

lemma settle_fewer:
  assumes inv: "rs_inv s" and run: "(tid, Started snapshot) \<in> set (running s)"
    and res: "settle_run deps tid snapshot s = Inr s'"
  shows "(s', s) \<in> measures remaining"
proof -
  from run have r: "tid \<in> fst ` set (running s)" by force
  with rs_invD(4)[OF inv] have key: "tid \<in> fst ` set (rs_tasks s)" by blast
  then obtain t where t: "map_of (rs_tasks s) tid = Some t"
    by (cases "map_of (rs_tasks s) tid") (auto simp: map_of_eq_None_keys)
  obtain r t' evs where tr: "Task_run deps snapshot t = (r, t', evs)"
    by (metis prod_cases3)
  let ?p = "case r of Inr result \<Rightarrow> Returned result | Inl e \<Rightarrow> Rejected"
  from settle_run_effect[OF t tr] res have s': "s' =
      s\<lparr>rs_tasks := AList.update tid t' (rs_tasks s),
        events := events s @ map (Pair tid) evs,
        running := AList.update tid ?p (running s)\<rparr>" by simp
  have "pieces ?p < 3" by (cases r) simp_all
  with sum_pieces_update[OF rs_invD(5)[OF inv] run, of ?p]
  have "sum_list (map (\<lambda>(tid, p). pieces p) (AList.update tid ?p (running s)))
      < sum_list (map (\<lambda>(tid, p). pieces p) (running s))" by simp
  then show ?thesis
    unfolding s' using key r by (intro fewer3) (simp_all add: length_update_key)
qed

lemma update_fewer:
  assumes inv: "rs_inv s" and run: "(tid, Returned result) \<in> set (running s)"
  shows "(call_update tid result s, s) \<in> measures remaining"
proof -
  from run have r: "tid \<in> fst ` set (running s)" by force
  let ?p = "Updating (applied s + length (updateQueue (rs_context s)) + 1)"
  from sum_pieces_update[OF rs_invD(5)[OF inv] run, of ?p]
  have "sum_list (map (\<lambda>(tid, p). pieces p) (AList.update tid ?p (running s)))
      < sum_list (map (\<lambda>(tid, p). pieces p) (running s))" by simp
  then show ?thesis
    unfolding call_update_def using r by (intro fewer3) (simp_all add: length_update_key)
qed

lemma finish_fewer:
  assumes inv: "rs_inv s" and run: "(tid, p) \<in> set (running s)"
  shows "(finish_task tid s, s) \<in> measures remaining"
proof -
  note f = finish_task_fields[of tid s]
  from run have r: "tid \<in> fst ` set (running s)" by force
  with rs_invD(8)[OF inv] have nc: "tid \<notin> set (completed s)" by blast
  from run have "0 < length (running s)" by (cases "running s") auto
  with rs_inv_count[OF inv] have "length (completed s) < length (rs_tasks s)" by linarith
  then have "length (rs_tasks s) - Suc (length (completed s))
      < length (rs_tasks s) - length (completed s)" by simp
  then show ?thesis
    by (intro fewer1) (simp add: f length_set_add[OF nc])
qed

lemma move_fewer:
  assumes "move deps s s'" "rs_inv s"
  shows "(s', s) \<in> measures remaining"
  using assms
proof (cases rule: move.cases)
  case resume
  with assms(2) show ?thesis by (auto intro: resume_fewer)
next
  case merge
  then show ?thesis by (auto intro: merge_fewer)
next
  case (settle tid snapshot)
  with assms(2) show ?thesis by (auto intro: settle_fewer)
next
  case (update tid result)
  with assms(2) show ?thesis by (auto intro: update_fewer)
next
  case (finish tid p)
  with assms(2) show ?thesis by (auto intro: finish_fewer)
qed

text \<open>
  An action of a schedule does nothing or is one of the moves; the action taken when the
  schedule is used up is a move. No action throws.
\<close>

lemma advance_move:
  assumes inv: "rs_inv s"
  shows "\<exists>s'. advance deps i s = Inr s' \<and> (s' = s \<or> move deps s s')"
proof (cases "running s = []")
  case True
  then show ?thesis by (simp add: advance_def)
next
  case False
  obtain tid p where pick: "running s ! (i mod length (running s)) = (tid, p)"
    by (cases "running s ! (i mod length (running s))") auto
  from False have "i mod length (running s) < length (running s)" by simp
  then have mem: "(tid, p) \<in> set (running s)"
    using pick nth_mem by fastforce
  show ?thesis
  proof (cases p)
    case (Started snapshot)
    from mem have "tid \<in> fst ` set (running s)" by force
    with rs_invD(4)[OF inv] have "tid \<in> fst ` set (rs_tasks s)" by blast
    then obtain t where t: "map_of (rs_tasks s) tid = Some t"
      by (cases "map_of (rs_tasks s) tid") (auto simp: map_of_eq_None_keys)
    obtain r t' evs where tr: "Task_run deps snapshot t = (r, t', evs)"
      by (metis prod_cases3)
    from settle_run_effect[OF t tr] obtain s' where
      s': "settle_run deps tid snapshot s = Inr s'" by blast
    from mem Started s' have "move deps s s'" by (auto intro: move.settle)
    with False pick Started s' show ?thesis by (simp add: advance_def)
  next
    case (Returned result)
    with mem have "move deps s (call_update tid result s)" by (auto intro: move.update)
    with False pick Returned show ?thesis by (simp add: advance_def)
  next
    case Rejected
    with mem have "move deps s (finish_task tid s)" by (auto intro: move.finish)
    with False pick Rejected show ?thesis by (simp add: advance_def)
  next
    case (Updating n)
    show ?thesis
    proof (cases "n \<le> applied s")
      case True
      with mem Updating have "move deps s (finish_task tid s)" by (auto intro: move.finish)
      with False pick Updating True show ?thesis by (simp add: advance_def)
    next
      case no: False
      with False pick Updating show ?thesis by (simp add: advance_def)
    qed
  qed
qed

lemma step_move:
  assumes inv: "rs_inv s"
  shows "\<exists>s'. step deps a s = Inr s' \<and> (s' = s \<or> move deps s s')"
proof (cases a)
  case ResumeLoop
  show ?thesis
  proof (cases "loop s = Woken")
    case True
    from loop_iteration_ok[OF inv] obtain s' where s': "loop_iteration s = Inr s'" by blast
    with True have "move deps s s'" by (auto intro: move.resume)
    with ResumeLoop True s' show ?thesis by simp
  next
    case False
    with ResumeLoop show ?thesis by simp
  qed
next
  case ApplyMerge
  show ?thesis
  proof (cases "updateQueue (rs_context s) = []")
    case True
    with ApplyMerge show ?thesis by (simp add: apply_merge_def)
  next
    case False
    then have "move deps s (apply_merge s)" by (rule move.merge)
    with ApplyMerge show ?thesis by simp
  qed
next
  case (Advance i)
  with advance_move[OF inv] show ?thesis by simp
qed

lemma next_move:
  assumes inv: "rs_inv s" and l: "loop s \<noteq> Exited"
  shows "\<exists>s'. step deps (next_action s) s = Inr s' \<and> move deps s s'"
proof (cases "loop s = Woken")
  case True
  from loop_iteration_ok[OF inv] obtain s' where s': "loop_iteration s = Inr s'" by blast
  with True have "move deps s s'" by (auto intro: move.resume)
  with True s' show ?thesis by (simp add: next_action_def)
next
  case False
  with l have aw: "loop s = Awaiting" by (cases "loop s") simp_all
  show ?thesis
  proof (cases "updateQueue (rs_context s) = []")
    case ne: False
    then have "move deps s (apply_merge s)" by (rule move.merge)
    with False ne show ?thesis by (simp add: next_action_def)
  next
    case True
    from rs_invD(12)[OF inv aw] have run: "running s \<noteq> []" .
    obtain tid p where pick: "running s ! 0 = (tid, p)"
      by (cases "running s ! 0") auto
    from run have mem: "(tid, p) \<in> set (running s)"
      using pick by (cases "running s") auto
    have "p \<noteq> Updating n \<or> n \<le> applied s" for n
      using rs_invD(11)[OF inv, of tid n] mem True by auto
    then have en: "\<And>n. p = Updating n \<Longrightarrow> n \<le> applied s" by blast
    from advance_move[OF inv, of deps 0] obtain s' where
      s': "advance deps 0 s = Inr s'" "s' = s \<or> move deps s s'" by blast
    have "move deps s s'"
    proof (cases p)
      case (Started snapshot)
      with mem s'(1) run pick show ?thesis
        by (auto simp: advance_def intro: move.settle)
    next
      case (Returned result)
      with mem s'(1) run pick show ?thesis
        by (auto simp: advance_def intro: move.update)
    next
      case Rejected
      with mem s'(1) run pick show ?thesis
        by (auto simp: advance_def intro: move.finish)
    next
      case (Updating n)
      with en have "n \<le> applied s" by simp
      with Updating mem s'(1) run pick show ?thesis
        by (auto simp: advance_def intro: move.finish)
    qed
    with False True s'(1) show ?thesis by (simp add: next_action_def)
  qed
qed

text \<open>
  For every schedule the steps of a run end with the loop left, and every property that
  the moves keep holds at the end.
\<close>

lemma run_steps_invariant:
  assumes keep: "\<And>s s'. rs_inv s \<Longrightarrow> P s \<Longrightarrow> move deps s s' \<Longrightarrow> P s'"
  shows "rs_inv s \<Longrightarrow> P s \<Longrightarrow>
     \<exists>s'. run_steps deps sched s = Some (Inr s') \<and> rs_inv s' \<and> P s' \<and> loop s' = Exited"
proof (induction "(s, sched)" arbitrary: s sched
    rule: wf_induct_rule[OF wf_measures[of "map (\<lambda>f (s, sched). f s) remaining
                                             @ [\<lambda>(s, sched). length sched]"]])
  case 1
  note inv = "1.prems"(1) and p = "1.prems"(2)
  have smaller: "((s1, sch1), (s, sched))
      \<in> measures (map (\<lambda>f (s, sched). f s) remaining @ [\<lambda>(s, sched). length sched])"
    if "(s1, s) \<in> measures remaining" for s1 sch1
    using that by (auto simp: remaining_def)
  show ?case
  proof (cases "loop s = Exited")
    case True
    with inv p show ?thesis by (subst run_steps.simps) simp
  next
    case False
    show ?thesis
    proof (cases sched)
      case Nil
      from next_move[OF inv False, of deps] obtain s1 where
        s1: "step deps (next_action s) s = Inr s1" "move deps s s1" by blast
      from move_inv[OF s1(2) inv] have i1: "rs_inv s1" .
      from keep[OF inv p s1(2)] have p1: "P s1" .
      from smaller[OF move_fewer[OF s1(2) inv]] "1.hyps"[of s1 "[]", OF _ i1 p1]
      obtain s' where "run_steps deps [] s1 = Some (Inr s')" "rs_inv s'" "P s'" "loop s' = Exited"
        by blast
      moreover have "run_steps deps sched s = run_steps deps [] s1"
        using False Nil s1(1) by (subst run_steps.simps) simp
      ultimately show ?thesis by simp
    next
      case (Cons a rest)
      from step_move[OF inv, of deps a] obtain s1 where
        s1: "step deps a s = Inr s1" "s1 = s \<or> move deps s s1" by blast
      have eq: "run_steps deps sched s = run_steps deps rest s1"
        using False Cons s1(1) by (subst run_steps.simps) simp
      from s1(2) show ?thesis
      proof
        assume same: "s1 = s"
        have "((s, rest), (s, sched))
            \<in> measures (map (\<lambda>f (s, sched). f s) remaining @ [\<lambda>(s, sched). length sched])"
          using Cons by (simp add: remaining_def)
        from "1.hyps"[OF this inv p] eq same show ?thesis by simp
      next
        assume mv: "move deps s s1"
        from move_inv[OF mv inv] have i1: "rs_inv s1" .
        from keep[OF inv p mv] have p1: "P s1" .
        from smaller[OF move_fewer[OF mv inv]] "1.hyps"[of s1 rest, OF _ i1 p1] eq
        show ?thesis by simp
      qed
    qed
  qed
qed

subsection \<open>Runs of a built graph\<close>

lemma addTask_static:
  "b_topologicalOrder (snd (addTask opts b)) = b_topologicalOrder b
   \<and> b_dependencies (snd (addTask opts b)) = b_dependencies b
   \<and> b_contextValueOrFactory (snd (addTask opts b)) = b_contextValueOrFactory b"
  by (simp add: addTask_result split: sum.splits option.splits)

lemma addTask_fresh:
  assumes "fresh_tasks (b_tasks b)"
  shows "fresh_tasks (b_tasks (snd (addTask opts b)))"
proof (cases "new_Task opts")
  case (Inl e)
  with assms show ?thesis by (simp add: addTask_result)
next
  case (Inr t)
  then have "task_status t = Pending"
    by (auto simp: new_Task_def Let_def split: option.splits sum.splits)
  moreover from Inr have "0 \<le> maxRetries (task_retryPolicy t)" by (rule new_Task_policy)
  ultimately show ?thesis
    using assms Inr by (simp add: addTask_result fresh_tasks_def split: option.splits)
qed

lemma addTasks_built:
  "addTasks optss b0 = Inr b \<Longrightarrow> insertion_ordered (b_tasks b0) \<Longrightarrow> fresh_tasks (b_tasks b0) \<Longrightarrow>
   insertion_ordered (b_tasks b) \<and> fresh_tasks (b_tasks b)
   \<and> b_topologicalOrder b = b_topologicalOrder b0
   \<and> b_dependencies b = b_dependencies b0
   \<and> b_contextValueOrFactory b = b_contextValueOrFactory b0"
proof (induction optss arbitrary: b0)
  case Nil
  then show ?case by simp
next
  case (Cons opts rest)
  from Cons.prems(1) obtain u b1 where 1: "addTask opts b0 = (Inr u, b1)"
    and 2: "addTasks rest b1 = Inr b"
    by (auto split: prod.splits sum.splits)
  from 1 have b1: "b1 = snd (addTask opts b0)" by simp
  have o: "insertion_ordered (b_tasks b1)"
    unfolding b1 using Cons.prems(2) by (rule addTask_ordered)
  have f: "fresh_tasks (b_tasks b1)"
    unfolding b1 using Cons.prems(3) by (rule addTask_fresh)
  from Cons.IH[OF 2 o f] addTask_static[of opts b0] show ?case
    unfolding b1 by simp
qed

lemma insertion_ordered_distinct: "insertion_ordered ts \<Longrightarrow> distinct (map fst ts)"
  by (induction rule: insertion_ordered.induct) auto

lemma built_runner:
  assumes "addTasks optss (new_TaskGraphBuilder deps seed) = Inr b" "build b = Inr r"
  shows "r_topologicalOrder r \<noteq> []" "set (r_topologicalOrder r) \<subseteq> fst ` set (r_tasks r)"
    "distinct (map fst (r_tasks r))" "r_context r = new_Context Undefined"
    "r_dependencies r = deps" "r_contextValueOrFactory r = seed"
    "fresh_tasks (r_tasks r)" "r_tasks r = b_tasks b"
proof -
  have "insertion_ordered (b_tasks (new_TaskGraphBuilder deps seed))"
    "fresh_tasks (b_tasks (new_TaskGraphBuilder deps seed))"
    by (simp_all add: new_TaskGraphBuilder_def insertion_ordered.empty fresh_tasks_def)
  from addTasks_built[OF assms(1) this] have b:
    "insertion_ordered (b_tasks b)" "fresh_tasks (b_tasks b)"
    "b_topologicalOrder b = []" "b_dependencies b = deps" "b_contextValueOrFactory b = seed"
    by (simp_all add: new_TaskGraphBuilder_def)
  from assms(2) have ne: "b_tasks b \<noteq> []"
    by (auto simp: build_def split: if_splits)
  from build_ok[OF ne insertion_ordered_closed[OF b(1)] insertion_ordered_acyclic[OF b(1)]]
    assms(2) b(3,4,5)
  obtain new where r: "r = \<lparr>r_dependencies = deps, r_contextValueOrFactory = seed,
      r_topologicalOrder = new, r_tasks = b_tasks b, r_context = new_Context Undefined\<rparr>"
    and new: "set new = fst ` set (b_tasks b)" by auto
  from ne new have "new \<noteq> []" by (cases "b_tasks b") auto
  with new b(1,2) show "r_topologicalOrder r \<noteq> []"
    "set (r_topologicalOrder r) \<subseteq> fst ` set (r_tasks r)"
    "distinct (map fst (r_tasks r))" "r_context r = new_Context Undefined"
    "r_dependencies r = deps" "r_contextValueOrFactory r = seed"
    "fresh_tasks (r_tasks r)" "r_tasks r = b_tasks b"
    unfolding r
    by (simp_all add: insertion_ordered_distinct)
qed

lemma no_dependencies_ok:
  "set ks \<subseteq> fst ` set ts \<Longrightarrow>
   \<exists>ready. no_dependencies ts ks = Inr ready \<and> set ready \<subseteq> set ks
     \<and> (\<forall>k \<in> set ready. \<exists>t. map_of ts k = Some t \<and> task_dependencies t = [])"
proof (induction ks)
  case Nil
  then show ?case by simp
next
  case (Cons k ks)
  then obtain t where t: "map_of ts k = Some t"
    by (cases "map_of ts k") (auto simp: map_of_eq_None_keys)
  from Cons obtain ready where "no_dependencies ts ks = Inr ready" "set ready \<subseteq> set ks"
    "\<forall>k \<in> set ready. \<exists>t. map_of ts k = Some t \<and> task_dependencies t = []" by auto
  with t show ?case by auto
qed

text \<open>
  A run of a runner whose order is not empty and names tasks of the map, with a seed that
  yields a value: it resolves, for every schedule, and every property that holds at the
  start of the loop and that the moves keep holds at the end.
\<close>

lemma run_invariant:
  assumes order: "r_topologicalOrder r \<noteq> []" "set (r_topologicalOrder r) \<subseteq> fst ` set (r_tasks r)"
    and d: "distinct (map fst (r_tasks r))"
    and sv: "seed_value (r_contextValueOrFactory r) = Inr v"
    and init: "\<And>ready.
        set ready \<subseteq> fst ` set (r_tasks r) \<Longrightarrow>
        \<forall>k \<in> set ready. \<exists>t. map_of (r_tasks r) k = Some t \<and> task_dependencies t = [] \<Longrightarrow>
        P \<lparr>rs_tasks = r_tasks r, rs_context = Context_reset v (r_context r),
           completed = [], running = [], readyTasks = ready,
           loop = Woken, applied = 0, events = []\<rparr>"
    and keep: "\<And>s s'. rs_inv s \<Longrightarrow> P s \<Longrightarrow> move (r_dependencies r) s s' \<Longrightarrow> P s'"
  shows "\<exists>s. run sched r = Some (Inr s) \<and> rs_inv s \<and> P s \<and> loop s = Exited"
proof -
  from no_dependencies_ok[OF order(2)] obtain ready where ready:
    "no_dependencies (r_tasks r) (r_topologicalOrder r) = Inr ready"
    "set ready \<subseteq> set (r_topologicalOrder r)"
    "\<forall>k \<in> set ready. \<exists>t. map_of (r_tasks r) k = Some t \<and> task_dependencies t = []"
    by blast
  let ?s0 = "\<lparr>rs_tasks = r_tasks r, rs_context = Context_reset v (r_context r),
           completed = [], running = [], readyTasks = new_Set ready,
           loop = Woken, applied = 0, events = []\<rparr>"
  have i0: "rs_inv ?s0"
    using d ready(2) order(2) by (auto simp: rs_inv_def)
  have p0: "P ?s0"
    using ready(2,3) order(2) by (intro init) auto
  from loop_iteration_ok[OF i0] obtain s1 where s1: "loop_iteration ?s0 = Inr s1" by blast
  then have mv: "move (r_dependencies r) ?s0 s1" by (intro move.resume) simp_all
  from move_inv[OF mv i0] have i1: "rs_inv s1" .
  from keep[OF i0 p0 mv] have p1: "P s1" .
  have run: "run sched r = run_steps (r_dependencies r) sched s1"
    using order(1) sv ready(1) s1 by (simp add: run_def)
  have "\<exists>s'. run_steps (r_dependencies r) sched s1 = Some (Inr s') \<and> rs_inv s' \<and> P s'
      \<and> loop s' = Exited"
  proof (rule run_steps_invariant[where P = P])
    show "\<And>s s'. rs_inv s \<Longrightarrow> P s \<Longrightarrow> move (r_dependencies r) s s' \<Longrightarrow> P s'"
      by (rule keep)
    show "rs_inv s1" by (rule i1)
    show "P s1" by (rule p1)
  qed
  with run show ?thesis by simp
qed

subsection \<open>Interleaved runs\<close>

text \<open>
  The pieces of different \<open>runTask\<close> calls interleave with the loop. In the graph of
  \<open>a\<close> and \<open>c\<close> without dependencies, \<open>d\<close>, which depends on \<open>a\<close> and returns
  whether its context has the key \<open>c\<close>, and \<open>e\<close>, which depends on \<open>c\<close> and
  returns whether its context has the key \<open>d\<close>, the schedule below lets the loop
  resume after the merge of \<open>c\<close> and before \<open>c\<close> enters \<open>completed\<close>, so that
  \<open>d\<close> starts with the result of \<open>c\<close> in its context while \<open>e\<close> is not ready
  yet, and \<open>e\<close> then starts with the result of \<open>d\<close>: both return \<open>true\<close>. With
  the schedule that takes the pieces of each call together, \<open>e\<close> starts along with
  \<open>d\<close> and returns \<open>false\<close>.
\<close>

lemma probe_runner_built:
  "run_graph [returning ''a'' [] Null, returning ''c'' [] Null,
              probing ''d'' [''a''] ''c'', probing ''e'' [''c''] ''d'']
     (Object []) (SeedValue Undefined) sched = run sched probe_runner"
  by (simp add: run_graph_def new_TaskGraphBuilder_def addTask_def new_Task_def
      addDependency_def returning_def probing_def build_def topologicalSort_def visit.simps
      probe_runner_def new_task_def)

lemma interleaved_run:
  "resolved_value
     (run [Advance 0, Advance 1, Advance 0, Advance 1, ApplyMerge, ApplyMerge, Advance 0,
           ResumeLoop, Advance 0, Advance 0, Advance 0, ApplyMerge, ResumeLoop]
        probe_runner) ''d''
     = Some (Inr (Some (Boolean True)))"
  "resolved_value
     (run [Advance 0, Advance 1, Advance 0, Advance 1, ApplyMerge, ApplyMerge, Advance 0,
           ResumeLoop, Advance 0, Advance 0, Advance 0, ApplyMerge, ResumeLoop]
        probe_runner) ''e''
     = Some (Inr (Some (Boolean True)))"
  "resolved_value
     (run [Advance 0, Advance 0, ApplyMerge, Advance 0, Advance 0, Advance 0, ApplyMerge,
           Advance 0, ResumeLoop]
        probe_runner) ''e''
     = Some (Inr (Some (Boolean False)))"
  by code_simp+

subsection \<open>A task whose dependency has not succeeded\<close>













subsection \<open>The key \<open>initial\<close>\<close>

text \<open>
  Claim C5 at a failing input: a task named \<open>initial\<close> is accepted by \<open>addTask\<close> and
  \<open>build\<close>, and the run with seed \<open>{count: 0}\<close> resolves with a context whose
  \<open>initial\<close> key holds the result of the task, \<open>7\<close>, not the seed.
\<close>

theorem task_named_initial_overwrites_seed:
  "resolved_value
     (run_graph [returning ''initial'' [] (Number 7)]
        (Object []) (SeedValue (Object [(''count'', Number 0)])) [])
     ''initial'' = Some (Inr (Some (Number 7)))"
  by (simp add: run_graph_def resolved_value_def new_TaskGraphBuilder_def addTask_def
      new_Task_def addDependency_def returning_def throwing_def build_def topologicalSort_def
      visit.simps run_def seed_value_def new_Context_def Context_reset_def new_Set_def
      set_add_def loop_iteration_def run_steps.simps next_action_def advance_def
      settle_run_def call_update_def apply_merge_def finish_task_def Task_run_def Task_start_def
      run_from.simps handle_error_def Context_value_def Context_update_def
      Context_settle_def canRun_def Let_def)

lemma initial_kept_move:
  assumes inv: "rs_inv s" and k: "initial_kept x s" and mv: "move deps s s'"
  shows "initial_kept x s'"
  using mv
proof (cases rule: move.cases)
  case resume
  have started: "initial_kept x (s1\<lparr>loop := l\<rparr>)"
    if st: "start_tasks (readyTasks s) s = Inr s1" for s1 l
    using k start_tasks_same[OF st] start_tasks_keys[OF st]
    by (simp add: initial_kept_def)
  have "initial_kept x (s\<lparr>loop := Exited\<rparr>)"
    using k by (simp add: initial_kept_def)
  with loop_iteration_cases[OF inv resume(2)] started show ?thesis by auto
next
  case merge
  from merge(2) obtain u rest where q: "updateQueue (rs_context s) = u # rest"
    by (cases "updateQueue (rs_context s)") auto
  have e: "apply_merge s =
      s\<lparr>rs_context := (rs_context s)\<lparr>object := object (rs_context s) ++ u, updateQueue := rest\<rparr>,
        applied := applied s + 1\<rparr>"
    using q by (simp add: apply_merge_def Context_settle_def)
  from k q have "initial_kept x (apply_merge s)"
    unfolding e initial_kept_def by (auto simp: map_add_def split: option.splits)
  with merge(1) show ?thesis by simp
next
  case (settle tid snapshot)
  from settle(1) have r: "tid \<in> fst ` set (running s)" by force
  with rs_invD(4)[OF inv] have key: "tid \<in> fst ` set (rs_tasks s)" by blast
  then obtain t where t: "map_of (rs_tasks s) tid = Some t"
    by (cases "map_of (rs_tasks s) tid") (auto simp: map_of_eq_None_keys)
  obtain res t' evs where tr: "Task_run deps snapshot t = (res, t', evs)"
    by (metis prod_cases3)
  from settle_run_effect[OF t tr] settle(2) k key show ?thesis
    by (auto simp: initial_kept_def keys_update_key)
next
  case (update tid result)
  from update(2) have r: "tid \<in> fst ` set (running s)" by force
  with rs_invD(4)[OF inv] have key: "tid \<in> fst ` set (rs_tasks s)" by blast
  with k have ne: "tid \<noteq> ''initial''" unfolding initial_kept_def by blast
  from k ne show ?thesis
    unfolding update(1) by (simp add: initial_kept_def call_update_def Context_update_def)
next
  case (finish tid p)
  from k show ?thesis
    unfolding finish(1) initial_kept_def finish_task_fields .
qed

text \<open>
  A run of a built graph without a task named \<open>initial\<close> resolves with a context that
  holds under \<open>initial\<close> what \<open>Context.reset\<close> has put there.
\<close>

lemma run_keeps_initial:
  assumes "addTasks optss (new_TaskGraphBuilder deps seed) = Inr b" "build b = Inr r"
    and "''initial'' \<notin> fst ` set (r_tasks r)" and "seed_value seed = Inr x"
  shows "\<exists>s. run sched r = Some (Inr s)
      \<and> Context_value (rs_context s) ''initial''
          = Context_value (Context_reset x (r_context r)) ''initial''"
proof -
  note r = built_runner[OF assms(1,2)]
  have sv: "seed_value (r_contextValueOrFactory r) = Inr x"
    unfolding r(6) by (rule assms(4))
  obtain y where y: "Context_value (Context_reset x (r_context r)) ''initial'' = Some y"
    by (cases "truthy x") (simp_all add: Context_value_def Context_reset_def)
  have "\<exists>s. run sched r = Some (Inr s) \<and> rs_inv s \<and> initial_kept y s \<and> loop s = Exited"
  proof (rule run_invariant[where P = "initial_kept y", OF r(1,2,3) sv])
    fix ready
    show "initial_kept y
        \<lparr>rs_tasks = r_tasks r, rs_context = Context_reset x (r_context r),
           completed = [], running = [], readyTasks = ready,
           loop = Woken, applied = 0, events = []\<rparr>"
      using assms(3) y unfolding r(4)
      by (simp add: initial_kept_def Context_value_def Context_reset_def new_Context_def)
  next
    show "\<And>s s'. rs_inv s \<Longrightarrow> initial_kept y s \<Longrightarrow> move (r_dependencies r) s s'
        \<Longrightarrow> initial_kept y s'"
      by (rule initial_kept_move)
  qed
  with y show ?thesis by (auto simp: initial_kept_def Context_value_def)
qed

lemma decimal_digits: "decimal 0 = ''0''" "decimal (Suc 0) = ''1''"
  by code_simp+

text \<open>
  Claim C10. For a seed that is a falsy value \<open>v\<close>: \<open>run\<close> does exactly what it does
  with the seed \<open>undefined\<close>, for every runner and every schedule; the value handed to
  \<open>Context.reset\<close> is \<open>undefined\<close>, and the context it makes holds \<open>undefined\<close>
  under \<open>initial\<close> (as \<open>reset\<close> of the falsy value itself would). A truthy value is
  handed to \<open>reset\<close> as it is, and so is whatever a factory yields, truthy or not.
  \<open>reset\<close> stores under \<open>initial\<close> a copy of the own enumerable properties of a
  truthy value: those of an object, none for a number or \<open>true\<close>, the indexed characters
  of a string. So the key holds something else than \<open>undefined\<close> only for a truthy
  value, given as it is or yielded by a factory. And for every graph built with
  \<open>addTask\<close> and \<open>build\<close> in which no task is named \<open>initial\<close> (such a task would
  write its result under the key, whatever the seed) and every schedule, the run resolves
  with a context that holds under \<open>initial\<close>: \<open>undefined\<close> when the seed is the falsy
  value or a factory that yields it; the copy of the object when the seed is an object or
  a factory that yields one.
\<close>

theorem falsy_seed_is_no_seed:
  assumes "\<not> truthy v"
  shows "run sched (r\<lparr>r_contextValueOrFactory := SeedValue v\<rparr>)
           = run sched (r\<lparr>r_contextValueOrFactory := SeedValue Undefined\<rparr>)
       \<and> seed_value (SeedValue v) = Inr Undefined
       \<and> Context_value (Context_reset Undefined c) = [''initial'' \<mapsto> Undefined]
       \<and> Context_value (Context_reset v c) = [''initial'' \<mapsto> Undefined]
       \<and> (\<forall>w. truthy w \<longrightarrow> seed_value (SeedValue w) = Inr w)
       \<and> (\<forall>w. seed_value (SeedFactory (Inr w)) = Inr w)
       \<and> (\<forall>kvs. Context_value (Context_reset (Object kvs) c) = [''initial'' \<mapsto> Object kvs])
       \<and> (\<forall>n. n \<noteq> 0 \<longrightarrow>
             Context_value (Context_reset (Number n) c) = [''initial'' \<mapsto> Object []])
       \<and> Context_value (Context_reset (Boolean True) c) = [''initial'' \<mapsto> Object []]
       \<and> (\<forall>a b. Context_value (Context_reset (Str [a, b]) c)
             = [''initial'' \<mapsto> Object [(''0'', Str [a]), (''1'', Str [b])]])
       \<and> (\<forall>seed x. seed_value seed = Inr x \<longrightarrow>
             Context_value (Context_reset x c) ''initial'' \<noteq> Some Undefined \<longrightarrow>
             truthy x \<and> (seed = SeedValue x \<or> seed = SeedFactory (Inr x)))
       \<and> (\<forall>optss deps seed b r'.
             addTasks optss (new_TaskGraphBuilder deps seed) = Inr b \<longrightarrow>
             build b = Inr r' \<longrightarrow> ''initial'' \<notin> fst ` set (r_tasks r') \<longrightarrow>
             (seed = SeedValue v \<or> seed = SeedFactory (Inr v) \<longrightarrow>
                (\<exists>s. run sched r' = Some (Inr s)
                    \<and> Context_value (rs_context s) ''initial'' = Some Undefined))
             \<and> (\<forall>kvs. seed = SeedValue (Object kvs) \<or> seed = SeedFactory (Inr (Object kvs)) \<longrightarrow>
                (\<exists>s. run sched r' = Some (Inr s)
                    \<and> Context_value (rs_context s) ''initial'' = Some (Object kvs))))"
proof -
  have sv: "seed_value (SeedValue v) = Inr Undefined"
    using assms by (simp add: seed_value_def)
  have 1: "run sched (r\<lparr>r_contextValueOrFactory := SeedValue v\<rparr>)
           = run sched (r\<lparr>r_contextValueOrFactory := SeedValue Undefined\<rparr>)"
    using sv by (simp add: run_def seed_value_def split: sum.splits)
  have 2: "Context_value (Context_reset Undefined c) = [''initial'' \<mapsto> Undefined]"
    "Context_value (Context_reset v c) = [''initial'' \<mapsto> Undefined]"
    using assms by (simp_all add: Context_value_def Context_reset_def)
  have 3: "\<forall>w. truthy w \<longrightarrow> seed_value (SeedValue w) = Inr w"
    "\<forall>w. seed_value (SeedFactory (Inr w)) = Inr w"
    by (simp_all add: seed_value_def)
  have 4: "\<forall>kvs. Context_value (Context_reset (Object kvs) c) = [''initial'' \<mapsto> Object kvs]"
    "\<forall>n. n \<noteq> 0 \<longrightarrow> Context_value (Context_reset (Number n) c) = [''initial'' \<mapsto> Object []]"
    "Context_value (Context_reset (Boolean True) c) = [''initial'' \<mapsto> Object []]"
    by (simp_all add: Context_value_def Context_reset_def)
  have 5: "\<forall>a b. Context_value (Context_reset (Str [a, b]) c)
             = [''initial'' \<mapsto> Object [(''0'', Str [a]), (''1'', Str [b])]]"
  proof -
    have "[0..<2] = [0, Suc 0]" by (simp add: upt_rec)
    then show ?thesis
      by (simp add: Context_value_def Context_reset_def decimal_digits del: decimal.simps)
  qed
  have 6: "\<forall>seed x. seed_value seed = Inr x \<longrightarrow>
             Context_value (Context_reset x c) ''initial'' \<noteq> Some Undefined \<longrightarrow>
             truthy x \<and> (seed = SeedValue x \<or> seed = SeedFactory (Inr x))"
  proof (intro allI impI)
    fix seed x
    assume s: "seed_value seed = Inr x"
      and n: "Context_value (Context_reset x c) ''initial'' \<noteq> Some Undefined"
    from n have t: "truthy x"
      by (auto simp: Context_value_def Context_reset_def split: if_splits)
    have "seed = SeedValue x \<or> seed = SeedFactory (Inr x)"
    proof (cases seed)
      case (SeedValue w)
      with s t show ?thesis by (auto simp: seed_value_def split: if_splits)
    next
      case (SeedFactory settled)
      with s show ?thesis by (cases settled) (auto simp: seed_value_def)
    qed
    with t show "truthy x \<and> (seed = SeedValue x \<or> seed = SeedFactory (Inr x))" by simp
  qed
  have 7: "(seed = SeedValue v \<or> seed = SeedFactory (Inr v) \<longrightarrow>
                (\<exists>s. run sched r' = Some (Inr s)
                    \<and> Context_value (rs_context s) ''initial'' = Some Undefined))
             \<and> (\<forall>kvs. seed = SeedValue (Object kvs) \<or> seed = SeedFactory (Inr (Object kvs)) \<longrightarrow>
                (\<exists>s. run sched r' = Some (Inr s)
                    \<and> Context_value (rs_context s) ''initial'' = Some (Object kvs)))"
    if a: "addTasks optss (new_TaskGraphBuilder deps seed) = Inr b"
      "build b = Inr r'" "''initial'' \<notin> fst ` set (r_tasks r')"
    for optss deps seed b r'
  proof (intro conjI impI allI)
    assume "seed = SeedValue v \<or> seed = SeedFactory (Inr v)"
    then have "seed_value seed = Inr Undefined \<or> seed_value seed = Inr v"
      using sv by (auto simp: seed_value_def)
    then show "\<exists>s. run sched r' = Some (Inr s)
        \<and> Context_value (rs_context s) ''initial'' = Some Undefined"
    proof
      assume "seed_value seed = Inr Undefined"
      from run_keeps_initial[OF a this, of sched] show ?thesis
        by (simp add: Context_value_def Context_reset_def)
    next
      assume "seed_value seed = Inr v"
      from run_keeps_initial[OF a this, of sched] assms show ?thesis
        by (simp add: Context_value_def Context_reset_def)
    qed
  next
    fix kvs assume "seed = SeedValue (Object kvs) \<or> seed = SeedFactory (Inr (Object kvs))"
    then have "seed_value seed = Inr (Object kvs)"
      by (auto simp: seed_value_def)
    from run_keeps_initial[OF a this, of sched]
    show "\<exists>s. run sched r' = Some (Inr s)
        \<and> Context_value (rs_context s) ''initial'' = Some (Object kvs)"
      by (simp add: Context_value_def Context_reset_def)
  qed
  from sv 1 2 3 4 5 6 7 show ?thesis by blast
qed

theorem falsy_seed_is_no_seed_witness:
  "\<not> truthy (Number 0) \<and> \<not> truthy (Boolean False) \<and> \<not> truthy (Str [])
   \<and> run [] (starved_runner\<lparr>r_contextValueOrFactory := SeedValue (Number 0)\<rparr>)
       = run [] (starved_runner\<lparr>r_contextValueOrFactory := SeedValue Undefined\<rparr>)
   \<and> seed_value (SeedValue (Number 0)) = Inr Undefined
   \<and> Context_value (Context_reset (Number 0) (new_Context Undefined)) = [''initial'' \<mapsto> Undefined]"
proof -
  have h: "\<not> truthy (Number 0)" by simp
  from falsy_seed_is_no_seed[OF h, of "[]" starved_runner "new_Context Undefined"] h
  show ?thesis by simp
qed

end
